theory Spec2Isabelle
  imports Main "HOL-Library.Word" "HOL-Library.Multiset"
begin

section \<open>Boolean layer: literals, truth values, levels\<close>

text \<open>
  The polysat constraint manager (\<^verbatim>\<open>constraint_manager.cpp\<close>) works on top of a
  boolean-variable manager \<^verbatim>\<open>s.m_bvars\<close>. A \<^verbatim>\<open>sat::literal\<close> is a boolean
  variable together with a sign; \<^verbatim>\<open>~lit\<close> flips the sign. Truth values are
  \<^verbatim>\<open>lbool\<close>; decision levels are C++ \<^verbatim>\<open>unsigned\<close>, here 32-bit words compared
  without sign.

  The \<^verbatim>\<open>SASSERT\<close>s of the file are checks of debug builds; they are not branches of
  the functions. Where one guards a read (\<^verbatim>\<open>cl.size() > 1\<close> in
  \<^verbatim>\<open>normalize_watch\<close>), the function is given no result outside the guard. Reference
  counts of clauses are not modelled: a clause address stays readable after its bucket is
  reset.
\<close>

type_synonym bool_var = nat

datatype literal = Lit (lit_var: bool_var) (lit_sign: bool)

fun neg_lit :: "literal \<Rightarrow> literal" where
  "neg_lit (Lit v s) = Lit v (\<not> s)"

datatype lbool = l_false | l_undef | l_true

type_synonym unsigned = "32 word"

definition UINT_MAX :: unsigned where
  "UINT_MAX = - 1"

section \<open>normalize_watch\<close>

text \<open>
  The lambda \<^verbatim>\<open>get_watch_level\<close> of \<^verbatim>\<open>normalize_watch\<close>. The functions
  \<open>bvalue\<close> and \<open>blevel\<close> stand for \<^verbatim>\<open>s.m_bvars.value(lit)\<close> and
  \<^verbatim>\<open>s.m_bvars.level(lit)\<close>, which live outside this file.
\<close>

definition get_watch_level :: "(literal \<Rightarrow> lbool) \<Rightarrow> (literal \<Rightarrow> unsigned) \<Rightarrow> literal \<Rightarrow> unsigned" where
  "get_watch_level bvalue blevel lit =
     (case bvalue lit of
        l_false \<Rightarrow> blevel lit
      | l_true \<Rightarrow> UINT_MAX
      | l_undef \<Rightarrow> UINT_MAX - 1)"

text \<open>
  The \<^verbatim>\<open>for (unsigned i = 2; i < cl.size(); ++i)\<close> loop. The three assignments of
  each branch are done one after the other, as in the source; \<open>lvl0\<close> and \<open>lvl1\<close> are the
  loop's local copies of the two front watch levels.
\<close>

function normalize_watch_loop ::
  "(literal \<Rightarrow> lbool) \<Rightarrow> (literal \<Rightarrow> unsigned) \<Rightarrow> nat \<Rightarrow> unsigned \<Rightarrow> unsigned \<Rightarrow> literal list \<Rightarrow> literal list" where
  "normalize_watch_loop bvalue blevel i lvl0 lvl1 cl =
     (if i < length cl then
        (let lit = cl ! i;
             lvl = get_watch_level bvalue blevel lit
         in if lvl > lvl0 then
              (let cl1 = cl[i := cl ! 1];
                   cl2 = cl1[1 := cl1 ! 0];
                   cl3 = cl2[0 := lit]
               in normalize_watch_loop bvalue blevel (i + 1) lvl lvl0 cl3)
            else if lvl > lvl1 then
              (let cl1 = cl[i := cl ! 1];
                   cl2 = cl1[1 := lit]
               in normalize_watch_loop bvalue blevel (i + 1) lvl0 lvl cl2)
            else normalize_watch_loop bvalue blevel (i + 1) lvl0 lvl1 cl)
      else cl)"
  by pat_completeness auto
termination
  by (relation "measure (\<lambda>(bvalue, blevel, i, lvl0, lvl1, cl). length cl - i)") auto

declare normalize_watch_loop.simps [simp del]

text \<open>
  \<^verbatim>\<open>normalize_watch(clause& cl)\<close> on the clause's literal vector. The source requires
  \<^verbatim>\<open>cl.size() > 1\<close> (it reads \<^verbatim>\<open>cl[0]\<close> and \<^verbatim>\<open>cl[1]\<close>); a shorter clause is
  outside its contract and yields \<open>None\<close>.
\<close>

definition normalize_watch ::
  "(literal \<Rightarrow> lbool) \<Rightarrow> (literal \<Rightarrow> unsigned) \<Rightarrow> literal list \<Rightarrow> literal list option" where
  "normalize_watch bvalue blevel cl =
     (if length cl > 1 then
        (let lvl0 = get_watch_level bvalue blevel (cl ! 0);
             lvl1 = get_watch_level bvalue blevel (cl ! 1)
         in if lvl0 < lvl1 then
              Some (normalize_watch_loop bvalue blevel 2 lvl1 lvl0 (cl[0 := cl ! 1, 1 := cl ! 0]))
            else
              Some (normalize_watch_loop bvalue blevel 2 lvl0 lvl1 cl))
      else None)"

section \<open>Polynomial layer\<close>

text \<open>
  Polynomials (\<^verbatim>\<open>pdd\<close>) and their manager are implemented outside this file. The code
  only uses the operations below, so the polynomial type is a parameter \<open>'p\<close> and the
  manager is a record of these operations. \<^verbatim>\<open>power_of_2()\<close> is the bit-width K, a C++
  \<^verbatim>\<open>unsigned\<close>; values (\<^verbatim>\<open>rational\<close> in the source) are integers.
\<close>

record 'p pdd_manager =
  power_of_2 :: unsigned
  mk_val :: "int \<Rightarrow> 'p"
  mk_var :: "nat \<Rightarrow> 'p"
  zero_pdd :: 'p
  is_zero :: "'p \<Rightarrow> bool"
  is_one :: "'p \<Rightarrow> bool"
  is_val :: "'p \<Rightarrow> bool"
  val :: "'p \<Rightarrow> int"
  padd :: "'p \<Rightarrow> 'p \<Rightarrow> 'p"
  psub :: "'p \<Rightarrow> 'p \<Rightarrow> 'p"
  pmul :: "'p \<Rightarrow> 'p \<Rightarrow> 'p"
  pneg :: "'p \<Rightarrow> 'p"

text \<open>Modelled from the spec: \<^verbatim>\<open>pdd_manager::max_value()\<close> is missing; the spec calls it
  the all-ones value of width K.\<close>

definition max_value :: "'p pdd_manager \<Rightarrow> int" where
  "max_value m = 2 ^ unat (power_of_2 m) - 1"

text \<open>Modelled from the spec: \<^verbatim>\<open>machine_div_rem\<close> of the rational library is missing; the
  spec calls it the exact machine quotient/remainder. It is taken as C integer division,
  truncating towards zero, the remainder being what is left.\<close>

definition machine_div_rem :: "int \<Rightarrow> int \<Rightarrow> int \<times> int" where
  "machine_div_rem a b =
     (let q = sgn a * sgn b * (\<bar>a\<bar> div \<bar>b\<bar>) in (q, a - b * q))"

text \<open>
  What the code relies on from the polynomial layer, for constant polynomials: a value is
  stored reduced modulo \<open>2^K\<close>, the zero and the one polynomial are the constants 0 and 1,
  and adding two constants gives the constant of the sum.
\<close>

definition pdd_laws :: "'p pdd_manager \<Rightarrow> bool" where
  "pdd_laws m \<longleftrightarrow>
     (\<forall>v. is_val m (mk_val m v) \<and> val m (mk_val m v) = v mod 2 ^ unat (power_of_2 m)) \<and>
     (\<forall>p. is_val m p \<longrightarrow> 0 \<le> val m p \<and> val m p < 2 ^ unat (power_of_2 m)) \<and>
     (\<forall>p. is_zero m p \<longleftrightarrow> is_val m p \<and> val m p = 0) \<and>
     (\<forall>p. is_one m p \<longleftrightarrow> is_val m p \<and> val m p = 1) \<and>
     zero_pdd m = mk_val m 0 \<and>
     (\<forall>p q. is_val m p \<and> is_val m q \<longrightarrow> padd m p q = mk_val m (val m p + val m q))"

section \<open>Constraints, clauses and the state\<close>

text \<open>
  A constraint object is identified by its address (\<^verbatim>\<open>constraint*\<close>). Its payload is fixed
  at allocation; its \<^verbatim>\<open>m_bvar\<close> field is the only part this file writes. The heap of
  constraints is kept field by field: \<open>c_payload\<close> is defined exactly on the allocated
  addresses, \<open>c_bvar\<close> holds \<^verbatim>\<open>m_bvar\<close> (\<open>None\<close> for \<^verbatim>\<open>sat::null_bool_var\<close>).
  A clause object is an address too; \<open>clause_lits\<close> is its literal vector.
\<close>

datatype op_code = lshr_op | shl_op | and_op

datatype 'p ckind =
    ule_constraint 'p 'p
  | umul_ovfl_constraint 'p 'p
  | smul_fl_constraint 'p 'p bool
  | op_constraint op_code 'p 'p 'p

type_synonym cref = nat
type_synonym clause_ref = nat
type_synonym pvar = nat

text \<open>A \<^verbatim>\<open>signed_constraint\<close>: the constraint and \<^verbatim>\<open>is_positive\<close>.\<close>

type_synonym signed_constraint = "cref \<times> bool"

definition neg_sc :: "signed_constraint \<Rightarrow> signed_constraint" where
  "neg_sc sc = (fst sc, \<not> snd sc)"

text \<open>
  The fields of the constraint manager (\<^verbatim>\<open>m_bv2constraint\<close>, \<^verbatim>\<open>m_constraints\<close>,
  \<^verbatim>\<open>m_clauses\<close>, the three tables of \<^verbatim>\<open>m_dedup\<close>), the two heaps, and the part of the
  solver \<^verbatim>\<open>s\<close> the file reads and writes. \<open>dedup_constraints\<close> is the hash set of
  \<^verbatim>\<open>m_dedup.constraints\<close>: it holds constraint addresses and compares them by payload.

  The solver is outside this file. \<open>bvars_size\<close> counts the boolean variables
  handed out by \<^verbatim>\<open>s.m_bvars.new_var()\<close>; \<open>bvars_watch\<close> is \<^verbatim>\<open>s.m_bvars.watch(lit)\<close>,
  one list of clause addresses per literal; \<open>pvar_sizes\<close> lists the widths of the variables
  made by \<^verbatim>\<open>s.add_var(sz)\<close>; \<open>added_clauses\<close> records each call of
  \<^verbatim>\<open>s.add_clause\<close> with its literals and its redundancy flag.
\<close>

record 'p manager_state =
  m_bv2constraint :: "bool_var \<rightharpoonup> cref"
  m_constraints :: "cref list"
  m_clauses :: "clause_ref list list"
  dedup_constraints :: "cref list"
  quot_rem_expr :: "('p \<times> 'p) \<rightharpoonup> (pvar \<times> pvar)"
  op_constraint_expr :: "(op_code \<times> 'p \<times> 'p) \<rightharpoonup> pvar"
  c_payload :: "cref \<rightharpoonup> 'p ckind"
  c_bvar :: "cref \<rightharpoonup> bool_var"
  next_cref :: cref
  clause_lits :: "clause_ref \<Rightarrow> literal list"
  bvars_size :: nat
  bvars_value :: "literal \<Rightarrow> lbool"
  bvars_level :: "literal \<Rightarrow> unsigned"
  bvars_watch :: "literal \<Rightarrow> clause_ref list"
  pvar_sizes :: "unsigned list"
  added_clauses :: "(signed_constraint list \<times> bool) list"

text \<open>The state after \<^verbatim>\<open>constraint_manager::constraint_manager(solver& s)\<close> on a fresh
  solver: nothing allocated, every literal unassigned.\<close>

definition init_state :: "'p manager_state" where
  "init_state =
     \<lparr> m_bv2constraint = Map.empty, m_constraints = [], m_clauses = [],
       dedup_constraints = [], quot_rem_expr = Map.empty, op_constraint_expr = Map.empty,
       c_payload = Map.empty, c_bvar = Map.empty, next_cref = 0,
       clause_lits = (\<lambda>_. []),
       bvars_size = 0, bvars_value = (\<lambda>_. l_undef), bvars_level = (\<lambda>_. 0),
       bvars_watch = (\<lambda>_. []), pvar_sizes = [], added_clauses = [] \<rparr>"

text \<open>
  The solver's trail operations that \<^verbatim>\<open>watch\<close> calls are outside this file and are taken
  as parameters: \<^verbatim>\<open>s.assign_propagate(lit, cl)\<close>, \<^verbatim>\<open>s.assign_eval(lit)\<close>,
  \<^verbatim>\<open>s.set_conflict(cl)\<close>; \<open>lit_is_currently_false lit\<close> is
  \<^verbatim>\<open>s.lit2cnstr(lit).is_currently_false(s)\<close> and \<open>set_conflict_lit lit\<close> is
  \<^verbatim>\<open>s.set_conflict(s.lit2cnstr(lit))\<close>.
\<close>

record 'p solver_ops =
  assign_propagate :: "literal \<Rightarrow> clause_ref \<Rightarrow> 'p manager_state \<Rightarrow> 'p manager_state"
  assign_eval :: "literal \<Rightarrow> 'p manager_state \<Rightarrow> 'p manager_state"
  set_conflict_clause :: "clause_ref \<Rightarrow> 'p manager_state \<Rightarrow> 'p manager_state"
  set_conflict_lit :: "literal \<Rightarrow> 'p manager_state \<Rightarrow> 'p manager_state"
  lit_is_currently_false :: "literal \<Rightarrow> 'p manager_state \<Rightarrow> bool"

subsection \<open>Solver primitives\<close>

text \<open>Modelled from the spec: \<^verbatim>\<open>s.m_bvars.new_var()\<close> is missing; it hands out a
  boolean variable not handed out before, here the next index.\<close>

definition new_var :: "'p manager_state \<Rightarrow> bool_var \<times> 'p manager_state" where
  "new_var st = (bvars_size st, st\<lparr>bvars_size := Suc (bvars_size st)\<rparr>)"

text \<open>Modelled from the spec: \<^verbatim>\<open>s.add_var(sz)\<close> is missing; it introduces a fresh
  variable of width \<open>sz\<close>, here the next index.\<close>

definition add_var :: "unsigned \<Rightarrow> 'p manager_state \<Rightarrow> pvar \<times> 'p manager_state" where
  "add_var sz st = (length (pvar_sizes st), st\<lparr>pvar_sizes := pvar_sizes st @ [sz]\<rparr>)"

text \<open>Modelled from the spec: \<^verbatim>\<open>s.add_clause\<close> is missing; what the solver does with
  an emitted clause is outside this file, so the model only records the call.\<close>

definition add_clause :: "signed_constraint list \<Rightarrow> bool \<Rightarrow> 'p manager_state \<Rightarrow> 'p manager_state" where
  "add_clause cs is_redundant st = st\<lparr>added_clauses := added_clauses st @ [(cs, is_redundant)]\<rparr>"

text \<open>Modelled from the spec: \<^verbatim>\<open>is_false\<close>, \<^verbatim>\<open>is_true\<close> and \<^verbatim>\<open>is_assigned\<close> of
  \<^verbatim>\<open>s.m_bvars\<close> are missing; they compare the value of the literal.\<close>

definition is_false :: "'p manager_state \<Rightarrow> literal \<Rightarrow> bool" where
  "is_false st lit \<longleftrightarrow> bvars_value st lit = l_false"

definition is_true :: "'p manager_state \<Rightarrow> literal \<Rightarrow> bool" where
  "is_true st lit \<longleftrightarrow> bvars_value st lit = l_true"

definition is_assigned :: "'p manager_state \<Rightarrow> literal \<Rightarrow> bool" where
  "is_assigned st lit \<longleftrightarrow> bvars_value st lit \<noteq> l_undef"

text \<open>Modelled from the spec: \<^verbatim>\<open>push_back\<close> and \<^verbatim>\<open>erase\<close> of the watch list (a
  \<^verbatim>\<open>ptr_vector\<close>) are missing; \<^verbatim>\<open>erase\<close> removes the first entry equal to the clause
  address, if there is one.\<close>

definition watch_push_back :: "literal \<Rightarrow> clause_ref \<Rightarrow> 'p manager_state \<Rightarrow> 'p manager_state" where
  "watch_push_back lit c st = st\<lparr>bvars_watch := (bvars_watch st)(lit := bvars_watch st lit @ [c])\<rparr>"

definition watch_erase :: "literal \<Rightarrow> clause_ref \<Rightarrow> 'p manager_state \<Rightarrow> 'p manager_state" where
  "watch_erase lit c st = st\<lparr>bvars_watch := (bvars_watch st)(lit := remove1 c (bvars_watch st lit))\<rparr>"

subsection \<open>Boolean-variable bridge\<close>

definition get_bv2c :: "'p manager_state \<Rightarrow> bool_var \<Rightarrow> cref option" where
  "get_bv2c st bv = m_bv2constraint st bv"

definition has_bvar :: "'p manager_state \<Rightarrow> cref \<Rightarrow> bool" where
  "has_bvar st c \<longleftrightarrow> c_bvar st c \<noteq> None"

definition assign_bv2c :: "bool_var \<Rightarrow> cref \<Rightarrow> 'p manager_state \<Rightarrow> 'p manager_state" where
  "assign_bv2c bv c st =
     st\<lparr>c_bvar := (c_bvar st)(c \<mapsto> bv), m_bv2constraint := (m_bv2constraint st)(bv \<mapsto> c)\<rparr>"

text \<open>\<^verbatim>\<open>erase_bv2c\<close> is only called on a constraint with a boolean variable (its
  \<^verbatim>\<open>SASSERT\<close> and the guard of \<^verbatim>\<open>erase_bvar\<close>); without one it is left to do
  nothing.\<close>

definition erase_bv2c :: "cref \<Rightarrow> 'p manager_state \<Rightarrow> 'p manager_state" where
  "erase_bv2c c st =
     (case c_bvar st c of
        None \<Rightarrow> st
      | Some bv \<Rightarrow> st\<lparr>m_bv2constraint := (m_bv2constraint st)(bv := None), c_bvar := (c_bvar st)(c := None)\<rparr>)"

definition ensure_bvar :: "cref \<Rightarrow> 'p manager_state \<Rightarrow> 'p manager_state" where
  "ensure_bvar c st =
     (if \<not> has_bvar st c then (let (bv, st1) = new_var st in assign_bv2c bv c st1) else st)"

definition erase_bvar :: "cref \<Rightarrow> 'p manager_state \<Rightarrow> 'p manager_state" where
  "erase_bvar c st = (if has_bvar st c then erase_bv2c c st else st)"

definition lookup_var :: "'p manager_state \<Rightarrow> bool_var \<Rightarrow> cref option" where
  "lookup_var st v = get_bv2c st v"

subsection \<open>Storage\<close>

definition store_constraint :: "cref \<Rightarrow> 'p manager_state \<Rightarrow> 'p manager_state" where
  "store_constraint c st = st\<lparr>m_constraints := m_constraints st @ [c]\<rparr>"

text \<open>\<^verbatim>\<open>register_clause\<close>: the level read from \<^verbatim>\<open>s.base_level()\<close> is overwritten by 0
  before it is used.\<close>

definition register_clause :: "clause_ref \<Rightarrow> 'p manager_state \<Rightarrow> 'p manager_state" where
  "register_clause cl st =
     (let clause_level = (0::nat);
          cls = m_clauses st @ replicate (Suc clause_level - length (m_clauses st)) []
      in st\<lparr>m_clauses := cls[clause_level := cls ! clause_level @ [cl]]\<rparr>)"

subsection \<open>Watching and unwatching a clause\<close>

text \<open>
  The first loop of \<^verbatim>\<open>watch\<close> under \<^verbatim>\<open>value_propagate\<close>: it looks for the single
  unassigned literal of a clause with no true literal. \<open>None\<close> is \<^verbatim>\<open>sat::null_literal\<close>;
  the two \<^verbatim>\<open>break\<close>s end the loop with \<open>None\<close>.
\<close>

fun find_undef_lit :: "'p manager_state \<Rightarrow> literal list \<Rightarrow> literal option \<Rightarrow> literal option" where
  "find_undef_lit st [] undef_lit = undef_lit"
| "find_undef_lit st (lit # lits) undef_lit =
     (if is_false st lit then find_undef_lit st lits undef_lit
      else if is_true st lit then None
      else if undef_lit = None then find_undef_lit st lits (Some lit)
      else None)"

text \<open>
  The second loop: literals the theory evaluates to false. The first component of the
  result tells that the loop left \<^verbatim>\<open>watch\<close> through \<^verbatim>\<open>return\<close> after a conflict.
\<close>

fun eval_lits :: "'p solver_ops \<Rightarrow> literal list \<Rightarrow> 'p manager_state \<Rightarrow> bool \<times> 'p manager_state" where
  "eval_lits ops [] st = (False, st)"
| "eval_lits ops (lit # lits) st =
     (if is_false st lit then eval_lits ops lits st
      else if lit_is_currently_false ops lit st then
        (if is_true st lit then (True, set_conflict_lit ops lit st)
         else eval_lits ops lits (assign_eval ops (neg_lit lit) st))
      else eval_lits ops lits st)"

definition watch :: "'p solver_ops \<Rightarrow> clause_ref \<Rightarrow> bool \<Rightarrow> 'p manager_state \<Rightarrow> 'p manager_state" where
  "watch ops cl value_propagate st =
     (if clause_lits st cl = [] then st
      else
        (let (returned, st1) =
               (if value_propagate then
                  (let st0 = (case find_undef_lit st (clause_lits st cl) None of
                                Some undef_lit \<Rightarrow> assign_propagate ops undef_lit cl st
                              | None \<Rightarrow> st)
                   in eval_lits ops (clause_lits st0 cl) st0)
                else (False, st))
         in if returned then st1
            else if length (clause_lits st1 cl) = 1 then
              (if is_false st1 (clause_lits st1 cl ! 0) then set_conflict_clause ops cl st1
               else if \<not> is_assigned st1 (clause_lits st1 cl ! 0) then
                 assign_propagate ops (clause_lits st1 cl ! 0) cl st1
               else st1)
            else
              (case normalize_watch (bvars_value st1) (bvars_level st1) (clause_lits st1 cl) of
                 None \<Rightarrow> st1
               | Some lits \<Rightarrow>
                   (let st2 = st1\<lparr>clause_lits := (clause_lits st1)(cl := lits)\<rparr>;
                        st3 = watch_push_back (lits ! 0) cl st2;
                        st4 = watch_push_back (lits ! 1) cl st3
                    in if is_true st4 (lits ! 0) then st4
                       else if \<not> is_false st4 (lits ! 1) then st4
                       else if is_false st4 (lits ! 0) then set_conflict_clause ops cl st4
                       else assign_propagate ops (lits ! 0) cl st4))))"

definition unwatch :: "clause_ref \<Rightarrow> 'p manager_state \<Rightarrow> 'p manager_state" where
  "unwatch cl st =
     (if length (clause_lits st cl) \<le> 1 then st
      else
        (let st1 = watch_erase (neg_lit (clause_lits st cl ! 0)) cl st
         in watch_erase (neg_lit (clause_lits st1 cl ! 1)) cl st1))"

definition store_clause :: "'p solver_ops \<Rightarrow> clause_ref \<Rightarrow> bool \<Rightarrow> 'p manager_state \<Rightarrow> 'p manager_state" where
  "store_clause ops cl value_propagate st = watch ops cl value_propagate (register_clause cl st)"

text \<open>
  \<^verbatim>\<open>release_level\<close>: \<^verbatim>\<open>for (unsigned l = m_clauses.size(); l-- > lvl; )\<close> tests
  \<open>l > lvl\<close>, then decrements \<open>l\<close>, then runs the body; the body unwatches every clause
  of bucket \<open>l\<close> and resets the bucket.
\<close>

function release_level_loop :: "nat \<Rightarrow> nat \<Rightarrow> 'p manager_state \<Rightarrow> 'p manager_state" where
  "release_level_loop lvl l st =
     (if l > lvl then
        (let l' = l - 1;
             st1 = fold unwatch (m_clauses st ! l') st;
             st2 = st1\<lparr>m_clauses := (m_clauses st1)[l' := []]\<rparr>
         in release_level_loop lvl l' st2)
      else st)"
  by pat_completeness auto
termination
  by (relation "measure (\<lambda>(lvl, l, st). l)") auto

declare release_level_loop.simps [simp del]

definition release_level :: "nat \<Rightarrow> 'p manager_state \<Rightarrow> 'p manager_state" where
  "release_level lvl st = release_level_loop lvl (length (m_clauses st)) st"

subsection \<open>Hash-consing of constraints\<close>

text \<open>\<^verbatim>\<open>alloc\<close> makes a constraint object at a fresh address, without a boolean
  variable; \<^verbatim>\<open>dealloc\<close> frees it.\<close>

definition alloc :: "'p ckind \<Rightarrow> 'p manager_state \<Rightarrow> cref \<times> 'p manager_state" where
  "alloc k st =
     (next_cref st,
      st\<lparr>c_payload := (c_payload st)(next_cref st \<mapsto> k),
         c_bvar := (c_bvar st)(next_cref st := None),
         next_cref := Suc (next_cref st)\<rparr>)"

definition dealloc :: "cref \<Rightarrow> 'p manager_state \<Rightarrow> 'p manager_state" where
  "dealloc c st = st\<lparr>c_payload := (c_payload st)(c := None), c_bvar := (c_bvar st)(c := None)\<rparr>"

text \<open>\<^verbatim>\<open>m_dedup.constraints.find(c1, c2)\<close>: an entry of the table with the payload of
  \<open>c1\<close>.\<close>

definition dedup_find :: "'p manager_state \<Rightarrow> cref \<Rightarrow> cref option" where
  "dedup_find st c1 = find (\<lambda>c2. c_payload st c2 = c_payload st c1) (dedup_constraints st)"

definition dedup :: "cref \<Rightarrow> 'p manager_state \<Rightarrow> cref \<times> 'p manager_state" where
  "dedup c1 st =
     (case dedup_find st c1 of
        Some c2 \<Rightarrow> (c2, dealloc c1 st)
      | None \<Rightarrow>
          (let st1 = ensure_bvar c1 st;
               st2 = st1\<lparr>dedup_constraints := c1 # dedup_constraints st1\<rparr>;
               st3 = store_constraint c1 st2
           in (c1, st3)))"

subsection \<open>Constraint builders\<close>

text \<open>\<^verbatim>\<open>ule_constraint::simplify(is_positive, lhs, rhs)\<close> rewrites its three reference
  arguments; it is outside this file and is the parameter \<open>simplify\<close>, from the three
  values before to the three values after.\<close>

type_synonym 'p simplifier = "bool \<Rightarrow> 'p \<Rightarrow> 'p \<Rightarrow> bool \<times> 'p \<times> 'p"

definition ule :: "'p simplifier \<Rightarrow> 'p \<Rightarrow> 'p \<Rightarrow> 'p manager_state \<Rightarrow> signed_constraint \<times> 'p manager_state" where
  "ule simplify a b st =
     (let (is_positive, lhs, rhs) = simplify True a b;
          (c1, st1) = alloc (ule_constraint lhs rhs) st;
          (c, st2) = dedup c1 st1
      in ((c, is_positive), st2))"

definition eq :: "'p pdd_manager \<Rightarrow> 'p simplifier \<Rightarrow> 'p \<Rightarrow> 'p manager_state \<Rightarrow> signed_constraint \<times> 'p manager_state" where
  "eq m simplify p st = ule simplify p (zero_pdd m) st"

definition ult :: "'p simplifier \<Rightarrow> 'p \<Rightarrow> 'p \<Rightarrow> 'p manager_state \<Rightarrow> signed_constraint \<times> 'p manager_state" where
  "ult simplify a b st = (let (sc, st1) = ule simplify b a st in (neg_sc sc, st1))"

definition umul_ovfl :: "'p \<Rightarrow> 'p \<Rightarrow> 'p manager_state \<Rightarrow> signed_constraint \<times> 'p manager_state" where
  "umul_ovfl a b st =
     (let (c1, st1) = alloc (umul_ovfl_constraint a b) st;
          (c, st2) = dedup c1 st1
      in ((c, True), st2))"

definition smul_ovfl :: "'p \<Rightarrow> 'p \<Rightarrow> 'p manager_state \<Rightarrow> signed_constraint \<times> 'p manager_state" where
  "smul_ovfl a b st =
     (let (c1, st1) = alloc (smul_fl_constraint a b True) st;
          (c, st2) = dedup c1 st1
      in ((c, True), st2))"

definition smul_udfl :: "'p \<Rightarrow> 'p \<Rightarrow> 'p manager_state \<Rightarrow> signed_constraint \<times> 'p manager_state" where
  "smul_udfl a b st =
     (let (c1, st1) = alloc (smul_fl_constraint a b False) st;
          (c, st2) = dedup c1 st1
      in ((c, True), st2))"

definition mk_op_constraint ::
  "op_code \<Rightarrow> 'p \<Rightarrow> 'p \<Rightarrow> 'p \<Rightarrow> 'p manager_state \<Rightarrow> signed_constraint \<times> 'p manager_state" where
  "mk_op_constraint op p q r st =
     (let (c1, st1) = alloc (op_constraint op p q r) st;
          (c, st2) = dedup c1 st1
      in ((c, True), st2))"

text \<open>\<^verbatim>\<open>rational::power_of_two(a.power_of_2() - 1)\<close>: the subtraction is on
  \<^verbatim>\<open>unsigned\<close>. Adding a number to a polynomial adds the constant polynomial.\<close>

definition sle :: "'p pdd_manager \<Rightarrow> 'p simplifier \<Rightarrow> 'p \<Rightarrow> 'p \<Rightarrow> 'p manager_state \<Rightarrow> signed_constraint \<times> 'p manager_state" where
  "sle m simplify a b st =
     (let shift = 2 ^ unat (power_of_2 m - 1)
      in ule simplify (padd m a (mk_val m shift)) (padd m b (mk_val m shift)) st)"

definition slt :: "'p pdd_manager \<Rightarrow> 'p simplifier \<Rightarrow> 'p \<Rightarrow> 'p \<Rightarrow> 'p manager_state \<Rightarrow> signed_constraint \<times> 'p manager_state" where
  "slt m simplify a b st =
     (let shift = 2 ^ unat (power_of_2 m - 1)
      in ult simplify (padd m a (mk_val m shift)) (padd m b (mk_val m shift)) st)"

text \<open>\<^verbatim>\<open>bit(p, i)\<close>: \<open>K - i - 1\<close> and \<open>K - 1\<close> are computed on \<^verbatim>\<open>unsigned\<close>;
  multiplying a polynomial by a number multiplies by the constant polynomial.\<close>

definition bit :: "'p pdd_manager \<Rightarrow> 'p simplifier \<Rightarrow> 'p \<Rightarrow> unsigned \<Rightarrow> 'p manager_state \<Rightarrow> signed_constraint \<times> 'p manager_state" where
  "bit m simplify p i st =
     (let K = power_of_2 m;
          q = pmul m p (mk_val m (2 ^ unat (K - i - 1)));
          msb = 2 ^ unat (K - 1)
      in ule simplify (mk_val m msb) q st)"

subsection \<open>Quotient and remainder, operation terms\<close>

definition quot_rem ::
  "'p pdd_manager \<Rightarrow> 'p simplifier \<Rightarrow> 'p \<Rightarrow> 'p \<Rightarrow> 'p manager_state \<Rightarrow> ('p \<times> 'p) \<times> 'p manager_state" where
  "quot_rem m simplify a b st =
     (let sz = power_of_2 m in
      if is_zero m b then ((mk_val m (max_value m), a), st)
      else if is_one m b then ((a, zero_pdd m), st)
      else if is_val m a \<and> is_val m b then
        (let av = val m a;
             bv = val m b;
             (qv, rv) = machine_div_rem av bv;
             q = mk_val m qv;
             r = mk_val m rv
         in ((q, r), st))
      else
        (let args = (a, b) in
         case quot_rem_expr st args of
           Some (vq, vr) \<Rightarrow> ((mk_var m vq, mk_var m vr), st)
         | None \<Rightarrow>
             (let (vq, st1) = add_var sz st;
                  q = mk_var m vq;
                  (vr, st2) = add_var sz st1;
                  r = mk_var m vr;
                  st3 = st2\<lparr>quot_rem_expr := (quot_rem_expr st2)(args \<mapsto> (vq, vr))\<rparr>;
                  (c1, st4) = eq m simplify (psub m (padd m (pmul m b q) r) a) st3;
                  st5 = add_clause [c1] False st4;
                  (c2, st6) = umul_ovfl b q st5;
                  st7 = add_clause [neg_sc c2] False st6;
                  (c3, st8) = ule simplify (pmul m b q) (psub m (pneg m r) (mk_val m 1)) st7;
                  st9 = add_clause [c3] False st8;
                  (c_eq, st10) = eq m simplify b st9;
                  (c4, st11) = ult simplify r b st10;
                  st12 = add_clause [c_eq, c4] False st11;
                  (c5, st13) = eq m simplify (padd m q (mk_val m 1)) st12;
                  st14 = add_clause [neg_sc c_eq, c5] False st13
              in ((q, r), st14))))"

definition bnot :: "'p pdd_manager \<Rightarrow> 'p \<Rightarrow> 'p" where
  "bnot m p = psub m (pneg m p) (mk_val m 1)"

definition mk_op_term ::
  "'p pdd_manager \<Rightarrow> op_code \<Rightarrow> 'p \<Rightarrow> 'p \<Rightarrow> 'p manager_state \<Rightarrow> 'p \<times> 'p manager_state" where
  "mk_op_term m op p q st =
     (let sz = power_of_2 m;
          args = (op, p, q)
      in case op_constraint_expr st args of
           Some v \<Rightarrow> (mk_var m v, st)
         | None \<Rightarrow>
             (let (v, st1) = add_var sz st;
                  r = mk_var m v;
                  st2 = st1\<lparr>op_constraint_expr := (op_constraint_expr st1)(args \<mapsto> v)\<rparr>;
                  (c, st3) = mk_op_constraint op p q r st2;
                  st4 = add_clause [c] False st3
              in (r, st4)))"

definition lshr :: "'p pdd_manager \<Rightarrow> 'p \<Rightarrow> 'p \<Rightarrow> 'p manager_state \<Rightarrow> 'p \<times> 'p manager_state" where
  "lshr m p q st = mk_op_term m lshr_op p q st"

definition shl :: "'p pdd_manager \<Rightarrow> 'p \<Rightarrow> 'p \<Rightarrow> 'p manager_state \<Rightarrow> 'p \<times> 'p manager_state" where
  "shl m p q st = mk_op_term m shl_op p q st"

definition band :: "'p pdd_manager \<Rightarrow> 'p \<Rightarrow> 'p \<Rightarrow> 'p manager_state \<Rightarrow> 'p \<times> 'p manager_state" where
  "band m p q st = mk_op_term m and_op p q st"

definition bor :: "'p pdd_manager \<Rightarrow> 'p \<Rightarrow> 'p \<Rightarrow> 'p manager_state \<Rightarrow> 'p \<times> 'p manager_state" where
  "bor m p q st = (let (r, st1) = band m p q st in (psub m (padd m p q) r, st1))"

definition bxor :: "'p pdd_manager \<Rightarrow> 'p \<Rightarrow> 'p \<Rightarrow> 'p manager_state \<Rightarrow> 'p \<times> 'p manager_state" where
  "bxor m p q st =
     (let (r, st1) = band m p q st in (psub m (padd m p q) (pmul m (mk_val m 2) r), st1))"

definition bnand :: "'p pdd_manager \<Rightarrow> 'p \<Rightarrow> 'p \<Rightarrow> 'p manager_state \<Rightarrow> 'p \<times> 'p manager_state" where
  "bnand m p q st = (let (r, st1) = band m p q st in (bnot m r, st1))"

definition bnor :: "'p pdd_manager \<Rightarrow> 'p \<Rightarrow> 'p \<Rightarrow> 'p manager_state \<Rightarrow> 'p \<times> 'p manager_state" where
  "bnor m p q st = (let (r, st1) = bor m p q st in (bnot m r, st1))"

section \<open>Invariant of the constraint table\<close>

text \<open>
  The invariant that \<^verbatim>\<open>dedup\<close> keeps between calls of the builders: the allocated
  constraints are exactly the entries of \<^verbatim>\<open>m_dedup.constraints\<close>, all allocated before
  \<open>next_cref\<close>, no two entries have the same payload, and every entry has a boolean
  variable.
\<close>

definition dedup_inv :: "'p manager_state \<Rightarrow> bool" where
  "dedup_inv st \<longleftrightarrow>
     (\<forall>c. c_payload st c \<noteq> None \<longleftrightarrow> c \<in> set (dedup_constraints st)) \<and>
     (\<forall>c \<in> set (dedup_constraints st). c < next_cref st) \<and>
     distinct (map (c_payload st) (dedup_constraints st)) \<and>
     (\<forall>c \<in> set (dedup_constraints st). c_bvar st c \<noteq> None)"

text \<open>At most one allocated constraint per payload.\<close>

definition one_instance_per_key :: "'p manager_state \<Rightarrow> bool" where
  "one_instance_per_key st \<longleftrightarrow>
     (\<forall>c c'. c_payload st c \<noteq> None \<and> c_payload st c = c_payload st c' \<longrightarrow> c = c')"

text \<open>
  How a later state relates to an earlier one when only builders ran in between: the
  invariant holds again, every constraint allocated before is still allocated with the
  payload and the boolean variable it had, and the boolean variables handed out in
  between are as many as the constraints that entered the table.
\<close>

definition dedup_extends :: "'p manager_state \<Rightarrow> 'p manager_state \<Rightarrow> bool" where
  "dedup_extends st st' \<longleftrightarrow>
     dedup_inv st' \<and>
     (\<forall>c k. c_payload st c = Some k \<longrightarrow> c_payload st' c = Some k \<and> c_bvar st' c = c_bvar st c) \<and>
     bvars_size st' + length (dedup_constraints st) = bvars_size st + length (dedup_constraints st')"

text \<open>
  The signed constraint that \<^verbatim>\<open>ule(a, b)\<close> returns, read in a state: its constraint has
  the payload \<^verbatim>\<open>ule_constraint(lhs, rhs)\<close> of the simplified operands and a boolean
  variable, and its polarity is the simplified \<^verbatim>\<open>is_positive\<close>. \<^verbatim>\<open>ult(a, b)\<close> is the
  negation of \<^verbatim>\<open>ule(b, a)\<close>, and \<^verbatim>\<open>eq(p)\<close> is \<^verbatim>\<open>ule(p, 0)\<close>.
\<close>

definition is_ule :: "'p simplifier \<Rightarrow> 'p manager_state \<Rightarrow> 'p \<Rightarrow> 'p \<Rightarrow> signed_constraint \<Rightarrow> bool" where
  "is_ule simplify st a b sc \<longleftrightarrow>
     (case simplify True a b of
        (is_positive, lhs, rhs) \<Rightarrow>
          c_payload st (fst sc) = Some (ule_constraint lhs rhs) \<and> snd sc = is_positive) \<and>
     c_bvar st (fst sc) \<noteq> None"

definition is_ult :: "'p simplifier \<Rightarrow> 'p manager_state \<Rightarrow> 'p \<Rightarrow> 'p \<Rightarrow> signed_constraint \<Rightarrow> bool" where
  "is_ult simplify st a b sc \<longleftrightarrow> is_ule simplify st b a (neg_sc sc)"

definition is_eq :: "'p pdd_manager \<Rightarrow> 'p simplifier \<Rightarrow> 'p manager_state \<Rightarrow> 'p \<Rightarrow> signed_constraint \<Rightarrow> bool" where
  "is_eq m simplify st p sc \<longleftrightarrow> is_ule simplify st p (zero_pdd m) sc"

text \<open>A signed constraint with a given payload and polarity, and a boolean variable.\<close>

definition is_constraint :: "'p manager_state \<Rightarrow> 'p ckind \<Rightarrow> bool \<Rightarrow> signed_constraint \<Rightarrow> bool" where
  "is_constraint st k is_positive sc \<longleftrightarrow>
     c_payload st (fst sc) = Some k \<and> snd sc = is_positive \<and> c_bvar st (fst sc) \<noteq> None"

text \<open>
  Calls of the builders of this file, to state what holds after any sequence of them. The
  other term builders (\<^verbatim>\<open>lshr\<close>, \<^verbatim>\<open>shl\<close>, \<^verbatim>\<open>band\<close>, \<^verbatim>\<open>bor\<close>, \<^verbatim>\<open>bxor\<close>,
  \<^verbatim>\<open>bnand\<close>, \<^verbatim>\<open>bnor\<close>) change the state through one call of \<^verbatim>\<open>mk_op_term\<close>.
\<close>

datatype 'p builder_call =
    Call_ule 'p 'p
  | Call_eq 'p
  | Call_ult 'p 'p
  | Call_bit 'p unsigned
  | Call_umul_ovfl 'p 'p
  | Call_smul_ovfl 'p 'p
  | Call_smul_udfl 'p 'p
  | Call_mk_op_constraint op_code 'p 'p 'p
  | Call_sle 'p 'p
  | Call_slt 'p 'p
  | Call_quot_rem 'p 'p
  | Call_mk_op_term op_code 'p 'p

fun run_call :: "'p pdd_manager \<Rightarrow> 'p simplifier \<Rightarrow> 'p builder_call \<Rightarrow> 'p manager_state \<Rightarrow> 'p manager_state" where
  "run_call m simplify (Call_ule a b) st = snd (ule simplify a b st)"
| "run_call m simplify (Call_eq p) st = snd (eq m simplify p st)"
| "run_call m simplify (Call_ult a b) st = snd (ult simplify a b st)"
| "run_call m simplify (Call_bit p i) st = snd (bit m simplify p i st)"
| "run_call m simplify (Call_umul_ovfl a b) st = snd (umul_ovfl a b st)"
| "run_call m simplify (Call_smul_ovfl a b) st = snd (smul_ovfl a b st)"
| "run_call m simplify (Call_smul_udfl a b) st = snd (smul_udfl a b st)"
| "run_call m simplify (Call_mk_op_constraint op p q r) st = snd (mk_op_constraint op p q r st)"
| "run_call m simplify (Call_sle a b) st = snd (sle m simplify a b st)"
| "run_call m simplify (Call_slt a b) st = snd (slt m simplify a b st)"
| "run_call m simplify (Call_quot_rem a b) st = snd (quot_rem m simplify a b st)"
| "run_call m simplify (Call_mk_op_term op p q) st = snd (mk_op_term m op p q st)"

definition run_calls :: "'p pdd_manager \<Rightarrow> 'p simplifier \<Rightarrow> 'p builder_call list \<Rightarrow> 'p manager_state \<Rightarrow> 'p manager_state" where
  "run_calls m simplify calls st = fold (run_call m simplify) calls st"

section \<open>Truth of comparisons on constants\<close>

text \<open>Modelled from the spec: the evaluation of \<^verbatim>\<open>ule_constraint\<close> is missing; the spec
  calls \<^verbatim>\<open>ule\<close> the unsigned less-or-equal primitive. A signed constraint on constant
  operands holds when its polarity agrees with \<open>lhs \<le> rhs\<close> on the values.\<close>

definition sc_holds :: "'p pdd_manager \<Rightarrow> 'p manager_state \<Rightarrow> signed_constraint \<Rightarrow> bool" where
  "sc_holds m st sc =
     (case c_payload st (fst sc) of
        Some (ule_constraint lhs rhs) \<Rightarrow> (snd sc = (val m lhs \<le> val m rhs))
      | _ \<Rightarrow> False)"

text \<open>What \<^verbatim>\<open>sle\<close> relies on from \<^verbatim>\<open>ule_constraint::simplify\<close>: on constant operands
  it returns constant operands and a polarity with the same truth.\<close>

definition simplify_sound :: "'p pdd_manager \<Rightarrow> 'p simplifier \<Rightarrow> bool" where
  "simplify_sound m simplify \<longleftrightarrow>
     (\<forall>pos l r. is_val m l \<and> is_val m r \<longrightarrow>
        (case simplify pos l r of
           (pos', l', r') \<Rightarrow>
             is_val m l' \<and> is_val m r' \<and>
             ((pos' = (val m l' \<le> val m r')) = (pos = (val m l \<le> val m r)))))"

text \<open>The two's-complement reading of a K-bit value \<open>v\<close> with \<open>0 \<le> v < 2^K\<close>.\<close>

definition signed_val :: "'p pdd_manager \<Rightarrow> int \<Rightarrow> int" where
  "signed_val m v =
     (if v < 2 ^ (unat (power_of_2 m) - 1) then v else v - 2 ^ unat (power_of_2 m))"

section \<open>Concrete inputs\<close>

text \<open>
  A clause of four literals for the examples: literal 0 is false at level 1, literal 1 is
  false at level 3, literal 2 is unassigned and literal 3 is true.
\<close>

definition ex_bvalue :: "literal \<Rightarrow> lbool" where
  "ex_bvalue lit =
     (if lit = Lit 0 False then l_false
      else if lit = Lit 1 False then l_false
      else if lit = Lit 3 False then l_true
      else l_undef)"

definition ex_blevel :: "literal \<Rightarrow> unsigned" where
  "ex_blevel lit = (if lit = Lit 0 False then 1 else if lit = Lit 1 False then 3 else 0)"

definition ex_clause :: "literal list" where
  "ex_clause = [Lit 0 False, Lit 1 False, Lit 2 False, Lit 3 False]"

text \<open>
  A polynomial layer of width 4 for the examples. Constants are kept reduced modulo 16 and
  arithmetic on constants is done on the spot; any other polynomial stays a term.
\<close>

datatype ex_pdd =
    PVal int
  | PVar nat
  | PAdd ex_pdd ex_pdd
  | PSub ex_pdd ex_pdd
  | PMul ex_pdd ex_pdd
  | PNeg ex_pdd

fun ex_is_val :: "ex_pdd \<Rightarrow> bool" where
  "ex_is_val (PVal v) = True"
| "ex_is_val p = False"

fun ex_val :: "ex_pdd \<Rightarrow> int" where
  "ex_val (PVal v) = v mod 16"
| "ex_val p = 0"

fun ex_add :: "ex_pdd \<Rightarrow> ex_pdd \<Rightarrow> ex_pdd" where
  "ex_add (PVal a) (PVal b) = PVal ((a + b) mod 16)"
| "ex_add p q = PAdd p q"

fun ex_sub :: "ex_pdd \<Rightarrow> ex_pdd \<Rightarrow> ex_pdd" where
  "ex_sub (PVal a) (PVal b) = PVal ((a - b) mod 16)"
| "ex_sub p q = PSub p q"

fun ex_mul :: "ex_pdd \<Rightarrow> ex_pdd \<Rightarrow> ex_pdd" where
  "ex_mul (PVal a) (PVal b) = PVal ((a * b) mod 16)"
| "ex_mul p q = PMul p q"

fun ex_neg :: "ex_pdd \<Rightarrow> ex_pdd" where
  "ex_neg (PVal a) = PVal ((- a) mod 16)"
| "ex_neg p = PNeg p"

definition ex_mgr :: "ex_pdd pdd_manager" where
  "ex_mgr =
     \<lparr> power_of_2 = 4,
       mk_val = (\<lambda>v. PVal (v mod 16)),
       mk_var = PVar,
       zero_pdd = PVal 0,
       is_zero = (\<lambda>p. ex_is_val p \<and> ex_val p = 0),
       is_one = (\<lambda>p. ex_is_val p \<and> ex_val p = 1),
       is_val = ex_is_val,
       val = ex_val,
       padd = ex_add,
       psub = ex_sub,
       pmul = ex_mul,
       pneg = ex_neg \<rparr>"

text \<open>A simplifier that leaves its arguments as they are.\<close>

definition ex_simplify :: "ex_pdd simplifier" where
  "ex_simplify is_positive lhs rhs = (is_positive, lhs, rhs)"

text \<open>A state with the three 4-bit variables 0, 1 and 2; and a state with the boolean
  variables 0 to 3, all unassigned, and one clause at address 0, made of the positive
  literals of the variables 2 and 3.\<close>

definition ex_vars_state :: "ex_pdd manager_state" where
  "ex_vars_state = init_state\<lparr>pvar_sizes := [4, 4, 4]\<rparr>"

definition ex_clause_state :: "ex_pdd manager_state" where
  "ex_clause_state =
     init_state\<lparr>bvars_size := 4, clause_lits := (\<lambda>_. [])(0 := [Lit 2 False, Lit 3 False])\<rparr>"

section \<open>Properties of normalize_watch\<close>

lemma normalize_watch_loop_length:
  "length (normalize_watch_loop bvalue blevel i lvl0 lvl1 cl) = length cl"
proof (induction bvalue blevel i lvl0 lvl1 cl rule: normalize_watch_loop.induct)
  case (1 bvalue blevel i lvl0 lvl1 cl)
  show ?case
    using "1.IH"
    by (subst normalize_watch_loop.simps) (simp add: Let_def)
qed

lemma normalize_watch_loop_mset:
  "1 < length cl \<Longrightarrow> 2 \<le> i \<Longrightarrow>
   mset (normalize_watch_loop bvalue blevel i lvl0 lvl1 cl) = mset cl"
proof (induction bvalue blevel i lvl0 lvl1 cl rule: normalize_watch_loop.induct)
  case (1 bvalue blevel i lvl0 lvl1 cl)
  show ?case
  proof (cases "i < length cl")
    case False
    then show ?thesis by (subst normalize_watch_loop.simps) simp
  next
    case True
    define lit where "lit = cl ! i"
    define lvl where "lvl = get_watch_level bvalue blevel lit"
    define r where "r = cl[i := cl ! 1, 1 := (cl[i := cl ! 1]) ! 0, 0 := lit]"
    define t where "t = cl[i := cl ! 1, 1 := lit]"
    have i1: "i \<noteq> 1" "i \<noteq> 0" "1 < length cl" "0 < length cl"
      using "1.prems" by auto
    have t_swap: "t = cl[i := cl ! 1, 1 := cl ! i]"
      by (simp add: t_def lit_def)
    have mt: "mset t = mset cl"
      unfolding t_swap using mset_swap [of 1 cl i] True i1 by simp
    have r_swap: "r = t[1 := t ! 0, 0 := t ! 1]"
      using i1 True
      by (intro nth_equalityI) (auto simp: r_def t_def nth_list_update)
    have "mset r = mset t"
      unfolding r_swap using mset_swap [of 0 t 1] i1 by (simp add: t_def)
    with mt have mr: "mset r = mset cl" by simp
    show ?thesis
    proof (cases "lvl > lvl0")
      case A: True
      have "mset (normalize_watch_loop bvalue blevel (i + 1) lvl lvl0 r) = mset r"
        using "1.IH"(1) [OF True lit_def lvl_def A refl refl, of r] i1 "1.prems"
        by (simp add: r_def)
      then show ?thesis
        using True A mr
        by (subst normalize_watch_loop.simps) (simp add: Let_def lit_def lvl_def r_def)
    next
      case nA: False
      show ?thesis
      proof (cases "lvl > lvl1")
        case B: True
        have "mset (normalize_watch_loop bvalue blevel (i + 1) lvl0 lvl t) = mset t"
          using "1.IH"(2) [OF True lit_def lvl_def nA B refl, of t] i1 "1.prems"
          by (simp add: t_def)
        then show ?thesis
          using True nA B mt
          by (subst normalize_watch_loop.simps) (simp add: Let_def lit_def lvl_def t_def)
      next
        case nB: False
        have "mset (normalize_watch_loop bvalue blevel (i + 1) lvl0 lvl1 cl) = mset cl"
          using "1.IH"(3) [OF True lit_def lvl_def nA nB] "1.prems" by simp
        then show ?thesis
          using True nA nB
          by (subst normalize_watch_loop.simps) (simp add: Let_def lit_def lvl_def)
      qed
    qed
  qed
qed

lemma normalize_watch_loop_inv:
  assumes "1 < length cl" "2 \<le> i"
    and "lvl0 = get_watch_level bvalue blevel (cl ! 0)"
    and "lvl1 = get_watch_level bvalue blevel (cl ! 1)"
    and "lvl1 \<le> lvl0"
    and "\<forall>j. 2 \<le> j \<and> j < i \<and> j < length cl \<longrightarrow> get_watch_level bvalue blevel (cl ! j) \<le> lvl1"
  shows "let res = normalize_watch_loop bvalue blevel i lvl0 lvl1 cl in
           get_watch_level bvalue blevel (res ! 1) \<le> get_watch_level bvalue blevel (res ! 0) \<and>
           (\<forall>j. 2 \<le> j \<and> j < length res \<longrightarrow>
                get_watch_level bvalue blevel (res ! j) \<le> get_watch_level bvalue blevel (res ! 1))"
  using assms
proof (induction bvalue blevel i lvl0 lvl1 cl rule: normalize_watch_loop.induct)
  case (1 bvalue blevel i lvl0 lvl1 cl)
  let ?g = "get_watch_level bvalue blevel"
  show ?case
  proof (cases "i < length cl")
    case False
    then show ?thesis
      using "1.prems" by (subst normalize_watch_loop.simps) (auto simp: Let_def)
  next
    case True
    define lit where "lit = cl ! i"
    define lvl where "lvl = ?g lit"
    define r where "r = cl[i := cl ! 1, 1 := (cl[i := cl ! 1]) ! 0, 0 := lit]"
    define t where "t = cl[i := cl ! 1, 1 := lit]"
    have i1: "i \<noteq> 1" "i \<noteq> 0" "1 < length cl" "0 < length cl"
      using "1.prems" by auto
    show ?thesis
    proof (cases "lvl > lvl0")
      case A: True
      have r0: "r ! 0 = lit" and r1: "r ! 1 = cl ! 0" and ri: "r ! i = cl ! 1"
        and rj: "\<And>j. j \<noteq> 0 \<Longrightarrow> j \<noteq> 1 \<Longrightarrow> j \<noteq> i \<Longrightarrow> r ! j = cl ! j"
        and rl: "length r = length cl"
        using i1 True by (auto simp: r_def nth_list_update)
      have pre: "\<forall>j. 2 \<le> j \<and> j < i + 1 \<and> j < length r \<longrightarrow> ?g (r ! j) \<le> lvl0"
      proof (intro allI impI)
        fix j assume j: "2 \<le> j \<and> j < i + 1 \<and> j < length r"
        show "?g (r ! j) \<le> lvl0"
        proof (cases "j = i")
          case True
          then show ?thesis using ri "1.prems" by simp
        next
          case False
          then have "r ! j = cl ! j" using rj j by simp
          moreover have "?g (cl ! j) \<le> lvl1" using "1.prems"(6) j False rl by simp
          ultimately show ?thesis using "1.prems"(5) by simp
        qed
      qed
      have "let res = normalize_watch_loop bvalue blevel (i + 1) lvl lvl0 r in
           ?g (res ! 1) \<le> ?g (res ! 0) \<and>
           (\<forall>j. 2 \<le> j \<and> j < length res \<longrightarrow> ?g (res ! j) \<le> ?g (res ! 1))"
      proof (rule "1.IH"(1) [OF True lit_def lvl_def A refl refl, of r])
        show "r = cl[i := cl ! 1, 1 := cl[i := cl ! 1] ! 0, 0 := lit]" by (simp add: r_def)
        show "1 < length r" using rl i1 by simp
        show "2 \<le> i + 1" using "1.prems" by simp
        show "lvl = ?g (r ! 0)" using r0 lvl_def by simp
        show "lvl0 = ?g (r ! 1)" using r1 "1.prems" by simp
        show "lvl0 \<le> lvl" using A by simp
        show "\<forall>j. 2 \<le> j \<and> j < i + 1 \<and> j < length r \<longrightarrow> ?g (r ! j) \<le> lvl0" by (rule pre)
      qed
      then show ?thesis
        using True A
        by (subst normalize_watch_loop.simps) (simp add: Let_def lit_def lvl_def r_def)
    next
      case nA: False
      show ?thesis
      proof (cases "lvl > lvl1")
        case B: True
        have t0: "t ! 0 = cl ! 0" and t1: "t ! 1 = lit" and ti: "t ! i = cl ! 1"
          and tj: "\<And>j. j \<noteq> 1 \<Longrightarrow> j \<noteq> i \<Longrightarrow> t ! j = cl ! j"
          and tl: "length t = length cl"
          using i1 True by (auto simp: t_def nth_list_update)
        have pre: "\<forall>j. 2 \<le> j \<and> j < i + 1 \<and> j < length t \<longrightarrow> ?g (t ! j) \<le> lvl"
        proof (intro allI impI)
          fix j assume j: "2 \<le> j \<and> j < i + 1 \<and> j < length t"
          show "?g (t ! j) \<le> lvl"
          proof (cases "j = i")
            case True
            then show ?thesis using ti "1.prems" B by simp
          next
            case False
            then have "t ! j = cl ! j" using tj j by simp
            moreover have "?g (cl ! j) \<le> lvl1" using "1.prems"(6) j False tl by simp
            ultimately show ?thesis using B by simp
          qed
        qed
        have "let res = normalize_watch_loop bvalue blevel (i + 1) lvl0 lvl t in
           ?g (res ! 1) \<le> ?g (res ! 0) \<and>
           (\<forall>j. 2 \<le> j \<and> j < length res \<longrightarrow> ?g (res ! j) \<le> ?g (res ! 1))"
        proof (rule "1.IH"(2) [OF True lit_def lvl_def nA B refl, of t])
          show "t = cl[i := cl ! 1, 1 := lit]" by (simp add: t_def)
          show "1 < length t" using tl i1 by simp
          show "2 \<le> i + 1" using "1.prems" by simp
          show "lvl0 = ?g (t ! 0)" using t0 "1.prems" by simp
          show "lvl = ?g (t ! 1)" using t1 lvl_def by simp
          show "lvl \<le> lvl0" using nA by simp
          show "\<forall>j. 2 \<le> j \<and> j < i + 1 \<and> j < length t \<longrightarrow> ?g (t ! j) \<le> lvl" by (rule pre)
        qed
        then show ?thesis
          using True nA B
          by (subst normalize_watch_loop.simps) (simp add: Let_def lit_def lvl_def t_def)
      next
        case nB: False
        have pre: "\<forall>j. 2 \<le> j \<and> j < i + 1 \<and> j < length cl \<longrightarrow> ?g (cl ! j) \<le> lvl1"
        proof (intro allI impI)
          fix j assume j: "2 \<le> j \<and> j < i + 1 \<and> j < length cl"
          show "?g (cl ! j) \<le> lvl1"
          proof (cases "j = i")
            case True
            then show ?thesis using nB lvl_def lit_def by simp
          next
            case False
            then show ?thesis using "1.prems"(6) j by simp
          qed
        qed
        have "let res = normalize_watch_loop bvalue blevel (i + 1) lvl0 lvl1 cl in
           ?g (res ! 1) \<le> ?g (res ! 0) \<and>
           (\<forall>j. 2 \<le> j \<and> j < length res \<longrightarrow> ?g (res ! j) \<le> ?g (res ! 1))"
          using "1.IH"(3) [OF True lit_def lvl_def nA nB] "1.prems"(1-5) pre by simp
        then show ?thesis
          using True nA nB
          by (subst normalize_watch_loop.simps) (simp add: Let_def lit_def lvl_def)
      qed
    qed
  qed
qed

lemma normalize_watch_Some:
  "1 < length cl \<Longrightarrow> \<exists>cl'. normalize_watch bvalue blevel cl = Some cl'"
  by (simp add: normalize_watch_def Let_def)

lemma normalize_watch_length:
  "normalize_watch bvalue blevel cl = Some cl' \<Longrightarrow> length cl' = length cl"
  by (auto simp: normalize_watch_def Let_def normalize_watch_loop_length split: if_splits)

lemma normalize_watch_front:
  assumes "normalize_watch bvalue blevel cl = Some cl'"
  shows "get_watch_level bvalue blevel (cl' ! 1) \<le> get_watch_level bvalue blevel (cl' ! 0) \<and>
         (\<forall>j. 2 \<le> j \<and> j < length cl' \<longrightarrow>
              get_watch_level bvalue blevel (cl' ! j) \<le> get_watch_level bvalue blevel (cl' ! 1))"
proof -
  let ?g = "get_watch_level bvalue blevel"
  from assms have len: "1 < length cl"
    by (simp add: normalize_watch_def split: if_splits)
  show ?thesis
  proof (cases "?g (cl ! 0) < ?g (cl ! 1)")
    case True
    define sw where "sw = cl[0 := cl ! 1, 1 := cl ! 0]"
    have len0: "0 < length cl" using len by (cases cl) auto
    have sw0: "sw ! 0 = cl ! 1" and sw1: "sw ! 1 = cl ! 0" and swl: "1 < length sw"
      using len len0 by (simp_all add: sw_def nth_list_update)
    have res: "cl' = normalize_watch_loop bvalue blevel 2 (?g (cl ! 1)) (?g (cl ! 0)) sw"
      using assms True len by (simp add: normalize_watch_def Let_def sw_def)
    have "let res = normalize_watch_loop bvalue blevel 2 (?g (cl ! 1)) (?g (cl ! 0)) sw in
           ?g (res ! 1) \<le> ?g (res ! 0) \<and>
           (\<forall>j. 2 \<le> j \<and> j < length res \<longrightarrow> ?g (res ! j) \<le> ?g (res ! 1))"
      using swl sw0 sw1 True
      by (intro normalize_watch_loop_inv) auto
    then show ?thesis by (simp add: res Let_def)
  next
    case False
    have res: "cl' = normalize_watch_loop bvalue blevel 2 (?g (cl ! 0)) (?g (cl ! 1)) cl"
      using assms False len by (simp add: normalize_watch_def Let_def)
    have "let res = normalize_watch_loop bvalue blevel 2 (?g (cl ! 0)) (?g (cl ! 1)) cl in
           ?g (res ! 1) \<le> ?g (res ! 0) \<and>
           (\<forall>j. 2 \<le> j \<and> j < length res \<longrightarrow> ?g (res ! j) \<le> ?g (res ! 1))"
      using len False
      by (intro normalize_watch_loop_inv) auto
    then show ?thesis by (simp add: res Let_def)
  qed
qed

text \<open>
  Claim C1. For a clause of more than one literal, \<^verbatim>\<open>normalize_watch\<close> returns, and in the
  clause it leaves the watch level of position 0 is at least that of position 1, and no
  literal at a position from 2 on has a watch level above that of position 0 or above that
  of position 1. The watch level is \<open>get_watch_level\<close>: the level of a false literal,
  \<^verbatim>\<open>UINT_MAX\<close> for a true one, \<^verbatim>\<open>UINT_MAX - 1\<close> for an unassigned one.
\<close>

theorem normalize_watch_invariant:
  assumes "1 < length cl"
  shows "\<exists>cl'. normalize_watch bvalue blevel cl = Some cl' \<and> length cl' = length cl \<and>
           get_watch_level bvalue blevel (cl' ! 1) \<le> get_watch_level bvalue blevel (cl' ! 0) \<and>
           (\<forall>i. 2 \<le> i \<and> i < length cl' \<longrightarrow>
                get_watch_level bvalue blevel (cl' ! i) \<le> get_watch_level bvalue blevel (cl' ! 0) \<and>
                get_watch_level bvalue blevel (cl' ! i) \<le> get_watch_level bvalue blevel (cl' ! 1))"
proof -
  from assms obtain cl' where r: "normalize_watch bvalue blevel cl = Some cl'"
    using normalize_watch_Some by blast
  note f = normalize_watch_front [OF r]
  have "\<forall>i. 2 \<le> i \<and> i < length cl' \<longrightarrow>
          get_watch_level bvalue blevel (cl' ! i) \<le> get_watch_level bvalue blevel (cl' ! 0) \<and>
          get_watch_level bvalue blevel (cl' ! i) \<le> get_watch_level bvalue blevel (cl' ! 1)"
    using f by (meson order_trans)
  with r f normalize_watch_length [OF r] show ?thesis by blast
qed

theorem normalize_watch_invariant_witness:
  "1 < length ex_clause \<and>
   (\<exists>cl'. normalize_watch ex_bvalue ex_blevel ex_clause = Some cl' \<and> length cl' = length ex_clause \<and>
      get_watch_level ex_bvalue ex_blevel (cl' ! 1) \<le> get_watch_level ex_bvalue ex_blevel (cl' ! 0) \<and>
      (\<forall>i. 2 \<le> i \<and> i < length cl' \<longrightarrow>
           get_watch_level ex_bvalue ex_blevel (cl' ! i) \<le> get_watch_level ex_bvalue ex_blevel (cl' ! 0) \<and>
           get_watch_level ex_bvalue ex_blevel (cl' ! i) \<le> get_watch_level ex_bvalue ex_blevel (cl' ! 1)))"
proof -
  have h: "1 < length ex_clause" by (simp add: ex_clause_def)
  show ?thesis using h normalize_watch_invariant [OF h, of ex_bvalue ex_blevel] by simp
qed

lemma normalize_watch_example:
  "normalize_watch ex_bvalue ex_blevel ex_clause =
     Some [Lit 3 False, Lit 2 False, Lit 0 False, Lit 1 False]"
  by code_simp

text \<open>
  Claim C9. For a clause of more than one literal, \<^verbatim>\<open>normalize_watch\<close> only permutes the
  literals: the multiset of literals after the call is the multiset before it.
\<close>

theorem normalize_watch_permutes:
  assumes "1 < length cl"
  shows "\<exists>cl'. normalize_watch bvalue blevel cl = Some cl' \<and> mset cl' = mset cl"
proof (cases "get_watch_level bvalue blevel (cl ! 0) < get_watch_level bvalue blevel (cl ! 1)")
  case True
  have "0 < length cl" using assms by (cases cl) auto
  then have "mset (cl[0 := cl ! 1, 1 := cl ! 0]) = mset cl"
    using mset_swap [of 1 cl 0] assms by simp
  then show ?thesis
    using True assms by (simp add: normalize_watch_def Let_def normalize_watch_loop_mset)
next
  case False
  then show ?thesis
    using assms by (simp add: normalize_watch_def Let_def normalize_watch_loop_mset)
qed

theorem normalize_watch_permutes_witness:
  "1 < length ex_clause \<and>
   (\<exists>cl'. normalize_watch ex_bvalue ex_blevel ex_clause = Some cl' \<and> mset cl' = mset ex_clause)"
proof -
  have h: "1 < length ex_clause" by (simp add: ex_clause_def)
  show ?thesis using h normalize_watch_permutes [OF h, of ex_bvalue ex_blevel] by simp
qed

section \<open>Properties of quot_rem on constants\<close>

lemma ex_mgr_laws: "pdd_laws ex_mgr"
proof -
  have v: "\<And>p. ex_is_val p \<Longrightarrow> \<exists>v. p = PVal v"
    by (case_tac p) auto
  show ?thesis
    unfolding pdd_laws_def ex_mgr_def
    by (auto dest!: v simp: mod_add_eq)
qed

lemma machine_div_rem_nonneg:
  "0 \<le> a \<Longrightarrow> 0 < b \<Longrightarrow> machine_div_rem a b = (a div b, a mod b)"
  by (cases "a = 0") (auto simp: machine_div_rem_def Let_def minus_mult_div_eq_mod)

lemma pdd_laws_val_mk_val:
  "pdd_laws m \<Longrightarrow> 0 \<le> v \<Longrightarrow> v < 2 ^ unat (power_of_2 m) \<Longrightarrow> val m (mk_val m v) = v"
  by (simp add: pdd_laws_def)

lemma quot_rem_concrete_general:
  assumes L: "pdd_laws m" and a: "is_val m a" and b: "is_val m b" and nz: "val m b \<noteq> 0"
  shows "\<exists>q r. fst (quot_rem m simplify a b st) = (q, r) \<and> is_val m q \<and> is_val m r \<and>
           val m b * val m q + val m r = val m a \<and>
           val m r < val m b \<and>
           val m b * val m q + val m r < 2 ^ unat (power_of_2 m)"
proof -
  let ?N = "(2::int) ^ unat (power_of_2 m)"
  have ra: "0 \<le> val m a" "val m a < ?N" and rb: "0 \<le> val m b" "val m b < ?N"
    using L a b by (auto simp: pdd_laws_def)
  have bpos: "0 < val m b" using rb nz by simp
  have nzero: "\<not> is_zero m b" using L nz by (simp add: pdd_laws_def)
  show ?thesis
  proof (cases "is_one m b")
    case True
    then have b1: "val m b = 1" using L by (simp add: pdd_laws_def)
    have z: "is_val m (zero_pdd m)" "val m (zero_pdd m) = 0"
      using L by (auto simp: pdd_laws_def)
    have "fst (quot_rem m simplify a b st) = (a, zero_pdd m)"
      using nzero True by (simp add: quot_rem_def)
    then show ?thesis using a z b1 ra by simp
  next
    case False
    define qv where "qv = val m a div val m b"
    define rv where "rv = val m a mod val m b"
    have md: "machine_div_rem (val m a) (val m b) = (qv, rv)"
      using machine_div_rem_nonneg [OF ra(1) bpos] by (simp add: qv_def rv_def)
    have q0: "0 \<le> qv" using ra bpos by (simp add: qv_def pos_imp_zdiv_nonneg_iff)
    have qle: "qv \<le> val m a"
      using ra bpos unfolding qv_def by (smt (verit) zdiv_mono2 div_by_1)
    have r0: "0 \<le> rv" "rv < val m b" using bpos by (simp_all add: rv_def)
    have vq: "val m (mk_val m qv) = qv" using L q0 qle ra by (intro pdd_laws_val_mk_val) auto
    have vr: "val m (mk_val m rv) = rv" using L r0 rb by (intro pdd_laws_val_mk_val) auto
    have iv: "is_val m (mk_val m qv)" "is_val m (mk_val m rv)" using L by (auto simp: pdd_laws_def)
    have res: "fst (quot_rem m simplify a b st) = (mk_val m qv, mk_val m rv)"
      using nzero False a b md by (simp add: quot_rem_def Let_def)
    have "val m b * qv + rv = val m a" by (simp add: qv_def rv_def)
    then show ?thesis using res iv vq vr r0 ra by simp
  qed
qed

lemma quot_rem_5_3:
  assumes L: "pdd_laws m" and K: "power_of_2 m = 4"
  shows "fst (quot_rem m simplify (mk_val m 5) (mk_val m 3) st) = (mk_val m 1, mk_val m 2)"
proof -
  have v5: "is_val m (mk_val m 5)" "val m (mk_val m 5) = 5"
    and v3: "is_val m (mk_val m 3)" "val m (mk_val m 3) = 3"
    using L K by (auto simp: pdd_laws_def)
  have nz: "\<not> is_zero m (mk_val m 3)" "\<not> is_one m (mk_val m 3)"
    using L v3 by (auto simp: pdd_laws_def)
  have "machine_div_rem 5 3 = (1, 2)" by (simp add: machine_div_rem_def)
  then show ?thesis using v5 v3 nz by (simp add: quot_rem_def Let_def)
qed

lemma quot_rem_5_0:
  assumes L: "pdd_laws m" and K: "power_of_2 m = 4"
  shows "fst (quot_rem m simplify (mk_val m 5) (mk_val m 0) st) = (mk_val m 15, mk_val m 5)"
proof -
  have "is_zero m (mk_val m 0)" using L by (auto simp: pdd_laws_def)
  then show ?thesis using K by (simp add: quot_rem_def max_value_def)
qed

text \<open>
  Claim C3. For constant polynomials \<open>a\<close> and \<open>b\<close> of one width K with \<open>b \<noteq> 0\<close>,
  \<^verbatim>\<open>quot_rem(a, b)\<close> returns constants \<open>q\<close> and \<open>r\<close> with \<open>b * q + r = a\<close> (so also
  modulo \<open>2^K\<close>), \<open>r < b\<close>, and \<open>b * q + r\<close> below \<open>2^K\<close>; at width 4,
  \<^verbatim>\<open>quot_rem(5, 3)\<close> is \<open>(1, 2)\<close>. The polynomial layer is any manager that obeys
  \<open>pdd_laws\<close>.
\<close>

theorem quot_rem_concrete_division:
  assumes "pdd_laws m"
  shows "(is_val m a \<and> is_val m b \<and> val m b \<noteq> 0 \<longrightarrow>
           (\<exists>q r. fst (quot_rem m simplify a b st) = (q, r) \<and> is_val m q \<and> is_val m r \<and>
              (val m b * val m q + val m r) mod 2 ^ unat (power_of_2 m) = val m a mod 2 ^ unat (power_of_2 m) \<and>
              val m b * val m q + val m r = val m a \<and>
              val m r < val m b \<and>
              val m b * val m q + val m r < 2 ^ unat (power_of_2 m))) \<and>
         (power_of_2 m = 4 \<longrightarrow>
           fst (quot_rem m simplify (mk_val m 5) (mk_val m 3) st) = (mk_val m 1, mk_val m 2))"
proof (intro conjI impI)
  assume h: "is_val m a \<and> is_val m b \<and> val m b \<noteq> 0"
  then obtain q r where
    "fst (quot_rem m simplify a b st) = (q, r) \<and> is_val m q \<and> is_val m r \<and>
       val m b * val m q + val m r = val m a \<and> val m r < val m b \<and>
       val m b * val m q + val m r < 2 ^ unat (power_of_2 m)"
    using quot_rem_concrete_general [OF assms, of a b simplify st] by blast
  then show "\<exists>q r. fst (quot_rem m simplify a b st) = (q, r) \<and> is_val m q \<and> is_val m r \<and>
              (val m b * val m q + val m r) mod 2 ^ unat (power_of_2 m) = val m a mod 2 ^ unat (power_of_2 m) \<and>
              val m b * val m q + val m r = val m a \<and>
              val m r < val m b \<and>
              val m b * val m q + val m r < 2 ^ unat (power_of_2 m)"
    by auto
next
  assume "power_of_2 m = 4"
  then show "fst (quot_rem m simplify (mk_val m 5) (mk_val m 3) st) = (mk_val m 1, mk_val m 2)"
    using quot_rem_5_3 [OF assms] by simp
qed

theorem quot_rem_concrete_division_witness:
  "pdd_laws ex_mgr \<and> is_val ex_mgr (PVal 5) \<and> is_val ex_mgr (PVal 3) \<and> val ex_mgr (PVal 3) \<noteq> 0 \<and>
   power_of_2 ex_mgr = 4 \<and>
   (\<exists>q r. fst (quot_rem ex_mgr ex_simplify (PVal 5) (PVal 3) init_state) = (q, r) \<and>
      is_val ex_mgr q \<and> is_val ex_mgr r \<and>
      val ex_mgr (PVal 3) * val ex_mgr q + val ex_mgr r = val ex_mgr (PVal 5) \<and>
      val ex_mgr r < val ex_mgr (PVal 3) \<and>
      val ex_mgr (PVal 3) * val ex_mgr q + val ex_mgr r < 2 ^ unat (power_of_2 ex_mgr)) \<and>
   fst (quot_rem ex_mgr ex_simplify (mk_val ex_mgr 5) (mk_val ex_mgr 3) init_state)
     = (mk_val ex_mgr 1, mk_val ex_mgr 2)"
proof -
  have h: "is_val ex_mgr (PVal 5) \<and> is_val ex_mgr (PVal 3) \<and> val ex_mgr (PVal 3) \<noteq> 0"
    and k: "power_of_2 ex_mgr = 4"
    by (simp_all add: ex_mgr_def)
  show ?thesis
    using quot_rem_concrete_division [OF ex_mgr_laws, of "PVal 5" "PVal 3" ex_simplify init_state] h k
      ex_mgr_laws
    by auto
qed

text \<open>
  Claim C4. \<^verbatim>\<open>quot_rem(a, b)\<close> folds constants: for the zero polynomial \<open>b\<close> it returns
  the all-ones value and \<open>a\<close>; for the one polynomial \<open>b\<close> it returns \<open>a\<close> and zero; at
  width 4, \<^verbatim>\<open>quot_rem(5, 0)\<close> is \<open>(15, 5)\<close>.
\<close>

theorem quot_rem_constant_folding:
  assumes "pdd_laws m"
  shows "(is_zero m b \<longrightarrow> fst (quot_rem m simplify a b st) = (mk_val m (max_value m), a)) \<and>
         val m (mk_val m (max_value m)) = 2 ^ unat (power_of_2 m) - 1 \<and>
         (is_one m b \<longrightarrow> fst (quot_rem m simplify a b st) = (a, zero_pdd m)) \<and>
         (power_of_2 m = 4 \<longrightarrow>
            fst (quot_rem m simplify (mk_val m 5) (mk_val m 0) st) = (mk_val m 15, mk_val m 5))"
proof -
  have one_not_zero: "is_one m b \<Longrightarrow> \<not> is_zero m b"
    using assms by (auto simp: pdd_laws_def)
  have "val m (mk_val m (max_value m)) = max_value m"
    using assms by (intro pdd_laws_val_mk_val) (auto simp: max_value_def)
  then show ?thesis
    using one_not_zero quot_rem_5_0 [OF assms]
    by (auto simp: quot_rem_def max_value_def)
qed

theorem quot_rem_constant_folding_witness:
  "pdd_laws ex_mgr \<and> is_zero ex_mgr (PVal 0) \<and> is_one ex_mgr (PVal 1) \<and> power_of_2 ex_mgr = 4 \<and>
   fst (quot_rem ex_mgr ex_simplify (PVal 5) (PVal 0) init_state) = (PVal 15, PVal 5) \<and>
   fst (quot_rem ex_mgr ex_simplify (PVal 5) (PVal 1) init_state) = (PVal 5, PVal 0)"
proof -
  have h: "is_zero ex_mgr (PVal 0)" "is_one ex_mgr (PVal 1)" "power_of_2 ex_mgr = 4"
    "mk_val ex_mgr 5 = PVal 5" "mk_val ex_mgr 0 = PVal 0" "mk_val ex_mgr 15 = PVal 15"
    "zero_pdd ex_mgr = PVal 0"
    by (simp_all add: ex_mgr_def)
  show ?thesis
    using quot_rem_constant_folding [OF ex_mgr_laws, of "PVal 0" ex_simplify "PVal 5" init_state]
      quot_rem_constant_folding [OF ex_mgr_laws, of "PVal 1" ex_simplify "PVal 5" init_state]
      h ex_mgr_laws
    by simp
qed

text \<open>
  Claim C10. On a constant-folded path (\<open>b\<close> zero, \<open>b\<close> one, or \<open>a\<close> and \<open>b\<close> both
  constants) \<^verbatim>\<open>quot_rem\<close> returns with the whole state of the manager and of the solver
  unchanged: no variable, no clause, no entry of the memoization table.
\<close>

theorem quot_rem_constant_frame:
  assumes "is_zero m b \<or> is_one m b \<or> (is_val m a \<and> is_val m b)"
  shows "snd (quot_rem m simplify a b st) = st"
  using assms by (auto simp: quot_rem_def Let_def split: prod.splits)

theorem quot_rem_constant_frame_witness:
  "(is_zero ex_mgr (PVal 3) \<or> is_one ex_mgr (PVal 3) \<or> (is_val ex_mgr (PVal 5) \<and> is_val ex_mgr (PVal 3))) \<and>
   snd (quot_rem ex_mgr ex_simplify (PVal 5) (PVal 3) init_state) = init_state"
proof -
  have h: "is_zero ex_mgr (PVal 3) \<or> is_one ex_mgr (PVal 3) \<or> (is_val ex_mgr (PVal 5) \<and> is_val ex_mgr (PVal 3))"
    by (simp add: ex_mgr_def)
  show ?thesis using h quot_rem_constant_frame [OF h, of ex_simplify init_state] by simp
qed

section \<open>Properties of dedup\<close>


lemma dedup_inv_unique:
  assumes "dedup_inv st" "c \<in> set (dedup_constraints st)" "c' \<in> set (dedup_constraints st)"
    and "c_payload st c = c_payload st c'"
  shows "c = c'"
proof -
  have "inj_on (c_payload st) (set (dedup_constraints st))"
    using assms(1) by (simp add: dedup_inv_def distinct_map)
  then show ?thesis using assms(2-4) by (auto dest: inj_onD)
qed

lemma dedup_inv_one_instance: "dedup_inv st \<Longrightarrow> one_instance_per_key st"
  unfolding one_instance_per_key_def
proof (intro allI impI)
  fix c c' assume inv: "dedup_inv st" and h: "c_payload st c \<noteq> None \<and> c_payload st c = c_payload st c'"
  then have "c_payload st c \<noteq> None" "c_payload st c' \<noteq> None" by metis+
  then have "c \<in> set (dedup_constraints st)" "c' \<in> set (dedup_constraints st)"
    using inv by (simp_all add: dedup_inv_def)
  then show "c = c'" using dedup_inv_unique [OF inv] h by blast
qed

lemma dedup_inv_fresh: "dedup_inv st \<Longrightarrow> c_payload st (next_cref st) = None"
  by (force simp: dedup_inv_def)

text \<open>A hit: the payload is in the table.\<close>

lemma dedup_hit:
  assumes inv: "dedup_inv st" and c: "c_payload st c = Some k"
  shows "dedup (fst (alloc k st)) (snd (alloc k st)) =
           (c, st\<lparr>c_bvar := (c_bvar st)(next_cref st := None), next_cref := Suc (next_cref st)\<rparr>)"
proof -
  let ?n = "next_cref st"
  let ?st1 = "snd (alloc k st)"
  have cin: "c \<in> set (dedup_constraints st)" using inv c by (auto simp: dedup_inv_def)
  have fresh: "c_payload st ?n = None" using inv by (rule dedup_inv_fresh)
  have lt: "\<And>x. x \<in> set (dedup_constraints st) \<Longrightarrow> x \<noteq> ?n"
    using inv by (auto simp: dedup_inv_def)
  have P: "\<And>x. x \<in> set (dedup_constraints st) \<Longrightarrow>
             (c_payload ?st1 x = c_payload ?st1 (fst (alloc k st))) = (c_payload st x = Some k)"
    using lt by (auto simp: alloc_def)
  have d: "dedup_constraints ?st1 = dedup_constraints st" by (simp add: alloc_def)
  have "dedup_find ?st1 (fst (alloc k st)) = find (\<lambda>x. c_payload st x = Some k) (dedup_constraints st)"
    unfolding dedup_find_def by (rule find_cong) (simp add: d, simp add: P)
  moreover have "find (\<lambda>x. c_payload st x = Some k) (dedup_constraints st) = Some c"
  proof (cases "find (\<lambda>x. c_payload st x = Some k) (dedup_constraints st)")
    case None
    then show ?thesis using cin c by (auto simp: find_None_iff)
  next
    case (Some c')
    then have "c' \<in> set (dedup_constraints st)" "c_payload st c' = Some k"
      by (auto simp: find_Some_iff)
    then have "c' = c" using dedup_inv_unique [OF inv _ cin] c by simp
    then show ?thesis using Some by simp
  qed
  ultimately have f: "dedup_find ?st1 (fst (alloc k st)) = Some c" by simp
  have pay: "(c_payload st)(?n := None) = c_payload st" using fresh by (auto simp: fun_eq_iff)
  show ?thesis
    using f pay by (simp add: dedup_def) (simp add: alloc_def dealloc_def)
qed

lemma dedup_miss:
  assumes inv: "dedup_inv st" and nc: "\<forall>c. c_payload st c \<noteq> Some k"
  shows "dedup (fst (alloc k st)) (snd (alloc k st)) =
           (next_cref st,
            st\<lparr>c_payload := (c_payload st)(next_cref st \<mapsto> k),
               c_bvar := (c_bvar st)(next_cref st \<mapsto> bvars_size st),
               next_cref := Suc (next_cref st),
               bvars_size := Suc (bvars_size st),
               m_bv2constraint := (m_bv2constraint st)(bvars_size st \<mapsto> next_cref st),
               dedup_constraints := next_cref st # dedup_constraints st,
               m_constraints := m_constraints st @ [next_cref st]\<rparr>)"
proof -
  let ?n = "next_cref st"
  let ?st1 = "snd (alloc k st)"
  have lt: "\<And>x. x \<in> set (dedup_constraints st) \<Longrightarrow> x \<noteq> ?n"
    using inv by (auto simp: dedup_inv_def)
  have "dedup_find ?st1 (fst (alloc k st)) = None"
    unfolding dedup_find_def using lt nc by (auto simp: alloc_def find_None_iff)
  then show ?thesis
    by (simp add: dedup_def) (simp add: alloc_def ensure_bvar_def has_bvar_def new_var_def
          assign_bv2c_def store_constraint_def Let_def)
qed

lemma dedup_alloc_cases:
  assumes inv: "dedup_inv st"
  obtains (hit) c where "c_payload st c = Some k"
      "dedup (fst (alloc k st)) (snd (alloc k st)) =
           (c, st\<lparr>c_bvar := (c_bvar st)(next_cref st := None), next_cref := Suc (next_cref st)\<rparr>)"
  | (miss) "\<forall>c. c_payload st c \<noteq> Some k"
      "dedup (fst (alloc k st)) (snd (alloc k st)) =
           (next_cref st,
            st\<lparr>c_payload := (c_payload st)(next_cref st \<mapsto> k),
               c_bvar := (c_bvar st)(next_cref st \<mapsto> bvars_size st),
               next_cref := Suc (next_cref st),
               bvars_size := Suc (bvars_size st),
               m_bv2constraint := (m_bv2constraint st)(bvars_size st \<mapsto> next_cref st),
               dedup_constraints := next_cref st # dedup_constraints st,
               m_constraints := m_constraints st @ [next_cref st]\<rparr>)"
  using dedup_hit [OF inv] dedup_miss [OF inv] by blast

lemma dedup_inv_hit_state:
  assumes inv: "dedup_inv st"
  shows "dedup_inv (st\<lparr>c_bvar := (c_bvar st)(next_cref st := None), next_cref := Suc (next_cref st)\<rparr>)"
  using inv unfolding dedup_inv_def by (auto simp: less_Suc_eq)

lemma dedup_inv_miss_state:
  assumes inv: "dedup_inv st" and nc: "\<forall>c. c_payload st c \<noteq> Some k"
  shows "dedup_inv (st\<lparr>c_payload := (c_payload st)(next_cref st \<mapsto> k),
               c_bvar := (c_bvar st)(next_cref st \<mapsto> bvars_size st),
               next_cref := Suc (next_cref st),
               bvars_size := Suc (bvars_size st),
               m_bv2constraint := (m_bv2constraint st)(bvars_size st \<mapsto> next_cref st),
               dedup_constraints := next_cref st # dedup_constraints st,
               m_constraints := m_constraints st @ [next_cref st]\<rparr>)"
proof -
  let ?n = "next_cref st"
  have lt: "\<And>x. x \<in> set (dedup_constraints st) \<Longrightarrow> x \<noteq> ?n"
    using inv by (auto simp: dedup_inv_def)
  have m: "map ((c_payload st)(?n \<mapsto> k)) (dedup_constraints st) = map (c_payload st) (dedup_constraints st)"
    using lt by (auto intro!: map_cong)
  have notin: "Some k \<notin> set (map (c_payload st) (dedup_constraints st))"
    using nc by auto
  show ?thesis
    using inv unfolding dedup_inv_def
    by (simp add: m notin less_Suc_eq) (use nc lt in auto)
qed

lemma dedup_alloc_once:
  fixes st :: "'p manager_state" and k :: "'p ckind"
  assumes inv: "dedup_inv st"
  defines "r1 \<equiv> dedup (fst (alloc k st)) (snd (alloc k st))"
  shows "dedup_inv (snd r1)"
    and "c_payload (snd r1) (fst r1) = Some k"
    and "c_bvar (snd r1) (fst r1) \<noteq> None"
    and "bvars_size (snd r1) \<le> Suc (bvars_size st)"
    and "(\<exists>c. c_payload st c = Some k) \<Longrightarrow> bvars_size (snd r1) = bvars_size st"
    and "quot_rem_expr (snd r1) = quot_rem_expr st"
    and "op_constraint_expr (snd r1) = op_constraint_expr st"
    and "pvar_sizes (snd r1) = pvar_sizes st"
    and "added_clauses (snd r1) = added_clauses st"
proof -
  show "dedup_inv (snd r1)"
    using inv by (cases rule: dedup_alloc_cases [OF inv, of k])
      (simp_all add: r1_def dedup_inv_hit_state dedup_inv_miss_state)
  show "c_payload (snd r1) (fst r1) = Some k"
    by (cases rule: dedup_alloc_cases [OF inv, of k]) (simp_all add: r1_def)
  show "c_bvar (snd r1) (fst r1) \<noteq> None"
  proof (rule dedup_alloc_cases [OF inv, of k])
    fix c
    assume hit: "c_payload st c = Some k"
      "dedup (fst (alloc k st)) (snd (alloc k st)) =
         (c, st\<lparr>c_bvar := (c_bvar st)(next_cref st := None), next_cref := Suc (next_cref st)\<rparr>)"
    then have "c \<in> set (dedup_constraints st)" using inv by (auto simp: dedup_inv_def)
    then have "c \<noteq> next_cref st" "c_bvar st c \<noteq> None" using inv by (auto simp: dedup_inv_def)
    then show ?thesis using hit by (simp add: r1_def)
  next
    assume "dedup (fst (alloc k st)) (snd (alloc k st)) =
           (next_cref st,
            st\<lparr>c_payload := (c_payload st)(next_cref st \<mapsto> k),
               c_bvar := (c_bvar st)(next_cref st \<mapsto> bvars_size st),
               next_cref := Suc (next_cref st),
               bvars_size := Suc (bvars_size st),
               m_bv2constraint := (m_bv2constraint st)(bvars_size st \<mapsto> next_cref st),
               dedup_constraints := next_cref st # dedup_constraints st,
               m_constraints := m_constraints st @ [next_cref st]\<rparr>)"
    then show ?thesis by (simp add: r1_def)
  qed
  show "bvars_size (snd r1) \<le> Suc (bvars_size st)"
    by (cases rule: dedup_alloc_cases [OF inv, of k]) (simp_all add: r1_def)
  show "bvars_size (snd r1) = bvars_size st" if "\<exists>c. c_payload st c = Some k"
    using that by (cases rule: dedup_alloc_cases [OF inv, of k]) (simp_all add: r1_def)
  show "quot_rem_expr (snd r1) = quot_rem_expr st"
    by (cases rule: dedup_alloc_cases [OF inv, of k]) (simp_all add: r1_def)
  show "op_constraint_expr (snd r1) = op_constraint_expr st"
    by (cases rule: dedup_alloc_cases [OF inv, of k]) (simp_all add: r1_def)
  show "pvar_sizes (snd r1) = pvar_sizes st"
    by (cases rule: dedup_alloc_cases [OF inv, of k]) (simp_all add: r1_def)
  show "added_clauses (snd r1) = added_clauses st"
    by (cases rule: dedup_alloc_cases [OF inv, of k]) (simp_all add: r1_def)
qed

lemma dedup_alloc_again:
  fixes st :: "'p manager_state" and k :: "'p ckind"
  assumes inv: "dedup_inv st" and c: "c_payload st c = Some k"
  defines "r \<equiv> dedup (fst (alloc k st)) (snd (alloc k st))"
  shows "fst r = c"
    and "c_bvar (snd r) c = c_bvar st c"
    and "c_payload (snd r) = c_payload st"
    and "bvars_size (snd r) = bvars_size st"
    and "m_constraints (snd r) = m_constraints st"
    and "dedup_constraints (snd r) = dedup_constraints st"
    and "m_bv2constraint (snd r) = m_bv2constraint st"
proof -
  have "c \<in> set (dedup_constraints st)" using inv c by (auto simp: dedup_inv_def)
  then have ne: "c \<noteq> next_cref st" using inv by (auto simp: dedup_inv_def)
  note h = dedup_hit [OF inv c]
  show "fst r = c" "c_bvar (snd r) c = c_bvar st c" "c_payload (snd r) = c_payload st"
    "bvars_size (snd r) = bvars_size st" "m_constraints (snd r) = m_constraints st"
    "dedup_constraints (snd r) = dedup_constraints st" "m_bv2constraint (snd r) = m_bv2constraint st"
    using ne by (simp_all add: r_def h)
qed

lemma ule_unfold:
  "ule simplify a b st =
     (case simplify True a b of
        (is_positive, lhs, rhs) \<Rightarrow>
          ((fst (dedup (fst (alloc (ule_constraint lhs rhs) st)) (snd (alloc (ule_constraint lhs rhs) st))), is_positive),
           snd (dedup (fst (alloc (ule_constraint lhs rhs) st)) (snd (alloc (ule_constraint lhs rhs) st)))))"
  by (simp add: ule_def case_prod_beta)

lemma ule_twice:
  assumes inv: "dedup_inv st"
  shows "case ule simplify a b st of
           (sc1, st1) \<Rightarrow>
             (case ule simplify a b st1 of
                (sc2, st2) \<Rightarrow>
                  sc2 = sc1 \<and>
                  c_bvar st1 (fst sc1) \<noteq> None \<and>
                  c_bvar st2 (fst sc2) = c_bvar st1 (fst sc1) \<and>
                  c_payload st1 (fst sc1) \<noteq> None \<and>
                  c_payload st2 = c_payload st1 \<and>
                  bvars_size st1 \<le> Suc (bvars_size st) \<and>
                  bvars_size st2 = bvars_size st1 \<and>
                  m_constraints st2 = m_constraints st1 \<and>
                  dedup_inv st1 \<and> dedup_inv st2 \<and>
                  one_instance_per_key st1 \<and> one_instance_per_key st2)"
proof -
  obtain pos l r where s: "simplify True a b = (pos, l, r)" by (cases "simplify True a b") auto
  define k where "k = ule_constraint l r"
  define r1 where "r1 = dedup (fst (alloc k st)) (snd (alloc k st))"
  define r2 where "r2 = dedup (fst (alloc k (snd r1))) (snd (alloc k (snd r1)))"
  have u1: "ule simplify a b st = ((fst r1, pos), snd r1)"
    by (simp add: ule_unfold s r1_def k_def)
  have u2: "ule simplify a b (snd r1) = ((fst r2, pos), snd r2)"
    by (simp add: ule_unfold s r2_def k_def)
  note o = dedup_alloc_once [OF inv, of k, folded r1_def]
  note a = dedup_alloc_again [OF o(1) o(2), folded r2_def]
  note o2 = dedup_alloc_once [OF o(1), of k, folded r2_def]
  show ?thesis
    using o(1-4) a o2(1) dedup_inv_one_instance [OF o(1)] dedup_inv_one_instance [OF o2(1)]
    by (simp add: u1 u2)
qed

lemma init_state_inv: "dedup_inv init_state"
  by (simp add: dedup_inv_def init_state_def)

section \<open>Properties of the memoization tables\<close>


lemma dedup_frame:
  "dedup c1 st = (c, st') \<Longrightarrow>
     quot_rem_expr st' = quot_rem_expr st \<and> op_constraint_expr st' = op_constraint_expr st \<and>
     pvar_sizes st' = pvar_sizes st \<and> added_clauses st' = added_clauses st"
  by (auto simp: dedup_def dealloc_def ensure_bvar_def new_var_def assign_bv2c_def
        store_constraint_def Let_def split: option.splits if_splits)

lemma alloc_frame:
  "alloc k st = (c, st') \<Longrightarrow>
     quot_rem_expr st' = quot_rem_expr st \<and> op_constraint_expr st' = op_constraint_expr st \<and>
     pvar_sizes st' = pvar_sizes st \<and> added_clauses st' = added_clauses st"
  by (auto simp: alloc_def)

lemma dedup_alloc_frame:
  assumes "alloc k st = (c1, st1)" "dedup c1 st1 = (c, st2)"
  shows "quot_rem_expr st2 = quot_rem_expr st \<and> op_constraint_expr st2 = op_constraint_expr st \<and>
     pvar_sizes st2 = pvar_sizes st \<and> added_clauses st2 = added_clauses st"
  using alloc_frame [OF assms(1)] dedup_frame [OF assms(2)] by simp

lemma ule_frame:
  "ule simplify a b st = (sc, st') \<Longrightarrow>
     quot_rem_expr st' = quot_rem_expr st \<and> op_constraint_expr st' = op_constraint_expr st \<and>
     pvar_sizes st' = pvar_sizes st \<and> added_clauses st' = added_clauses st"
  unfolding ule_def by (auto simp: Let_def split: prod.splits dest: dedup_alloc_frame)

lemma eq_frame:
  "eq m simplify p st = (sc, st') \<Longrightarrow>
     quot_rem_expr st' = quot_rem_expr st \<and> op_constraint_expr st' = op_constraint_expr st \<and>
     pvar_sizes st' = pvar_sizes st \<and> added_clauses st' = added_clauses st"
  unfolding eq_def by (rule ule_frame)

lemma ult_frame:
  "ult simplify a b st = (sc, st') \<Longrightarrow>
     quot_rem_expr st' = quot_rem_expr st \<and> op_constraint_expr st' = op_constraint_expr st \<and>
     pvar_sizes st' = pvar_sizes st \<and> added_clauses st' = added_clauses st"
  unfolding ult_def by (auto simp: Let_def split: prod.splits dest: ule_frame)

lemma umul_ovfl_frame:
  "umul_ovfl a b st = (sc, st') \<Longrightarrow>
     quot_rem_expr st' = quot_rem_expr st \<and> op_constraint_expr st' = op_constraint_expr st \<and>
     pvar_sizes st' = pvar_sizes st \<and> added_clauses st' = added_clauses st"
  unfolding umul_ovfl_def by (auto simp: Let_def split: prod.splits dest: dedup_alloc_frame)

lemma mk_op_constraint_frame:
  "mk_op_constraint op p q r st = (sc, st') \<Longrightarrow>
     quot_rem_expr st' = quot_rem_expr st \<and> op_constraint_expr st' = op_constraint_expr st \<and>
     pvar_sizes st' = pvar_sizes st \<and> added_clauses st' = added_clauses st"
  unfolding mk_op_constraint_def by (auto simp: Let_def split: prod.splits dest: dedup_alloc_frame)

lemma add_clause_frame:
  "quot_rem_expr (add_clause cs rd st) = quot_rem_expr st"
  "op_constraint_expr (add_clause cs rd st) = op_constraint_expr st"
  "pvar_sizes (add_clause cs rd st) = pvar_sizes st"
  "added_clauses (add_clause cs rd st) = added_clauses st @ [(cs, rd)]"
  by (simp_all add: add_clause_def)

text \<open>The miss path of quot_rem, step by step.\<close>

lemma quot_rem_miss:
  assumes path: "\<not> is_zero m b" "\<not> is_one m b" "\<not> (is_val m a \<and> is_val m b)"
    and miss: "quot_rem_expr st (a, b) = None"
  defines "n \<equiv> length (pvar_sizes st)"
  shows "\<exists>st1 cs. quot_rem m simplify a b st = ((mk_var m n, mk_var m (Suc n)), st1) \<and>
           pvar_sizes st1 = pvar_sizes st @ [power_of_2 m, power_of_2 m] \<and>
           quot_rem_expr st1 = (quot_rem_expr st)((a, b) \<mapsto> (n, Suc n)) \<and>
           op_constraint_expr st1 = op_constraint_expr st \<and>
           added_clauses st1 = added_clauses st @ cs \<and> length cs = 5"
proof -
  define sz where "sz = power_of_2 m"
  define q where "q = mk_var m n"
  define r where "r = mk_var m (Suc n)"
  define st1 where "st1 = st\<lparr>pvar_sizes := pvar_sizes st @ [sz]\<rparr>"
  define st2 where "st2 = st1\<lparr>pvar_sizes := pvar_sizes st1 @ [sz]\<rparr>"
  define st3 where "st3 = st2\<lparr>quot_rem_expr := (quot_rem_expr st2)((a, b) \<mapsto> (n, Suc n))\<rparr>"
  have av1: "add_var sz st = (n, st1)" by (simp add: add_var_def n_def st1_def)
  have av2: "add_var sz st1 = (Suc n, st2)" by (simp add: add_var_def n_def st1_def st2_def)
  obtain c1 st4 where e4: "eq m simplify (psub m (padd m (pmul m b q) r) a) st3 = (c1, st4)"
    by (cases "eq m simplify (psub m (padd m (pmul m b q) r) a) st3") auto
  define st5 where "st5 = add_clause [c1] False st4"
  obtain c2 st6 where e6: "umul_ovfl b q st5 = (c2, st6)"
    by (cases "umul_ovfl b q st5") auto
  define st7 where "st7 = add_clause [neg_sc c2] False st6"
  obtain c3 st8 where e8: "ule simplify (pmul m b q) (psub m (pneg m r) (mk_val m 1)) st7 = (c3, st8)"
    by (cases "ule simplify (pmul m b q) (psub m (pneg m r) (mk_val m 1)) st7") auto
  define st9 where "st9 = add_clause [c3] False st8"
  obtain c_eq st10 where e10: "eq m simplify b st9 = (c_eq, st10)"
    by (cases "eq m simplify b st9") auto
  obtain c4 st11 where e11: "ult simplify r b st10 = (c4, st11)"
    by (cases "ult simplify r b st10") auto
  define st12 where "st12 = add_clause [c_eq, c4] False st11"
  obtain c5 st13 where e13: "eq m simplify (padd m q (mk_val m 1)) st12 = (c5, st13)"
    by (cases "eq m simplify (padd m q (mk_val m 1)) st12") auto
  define st14 where "st14 = add_clause [neg_sc c_eq, c5] False st13"
  have nv: "(is_val m a \<and> is_val m b) = False" using path(3) by simp
  have res: "quot_rem m simplify a b st = ((q, r), st14)"
    using path(1,2) miss
    by (simp add: quot_rem_def nv Let_def av1 av2 e4 e6 e8 e10 e11 e13
          sz_def [symmetric] q_def [symmetric] r_def [symmetric] st3_def [symmetric]
          st5_def [symmetric] st7_def [symmetric] st9_def [symmetric] st12_def [symmetric]
          st14_def [symmetric])
  note f4 = eq_frame [OF e4] and f6 = umul_ovfl_frame [OF e6] and f8 = ule_frame [OF e8]
    and f10 = eq_frame [OF e10] and f11 = ult_frame [OF e11] and f13 = eq_frame [OF e13]
  have p: "pvar_sizes st14 = pvar_sizes st @ [sz, sz]"
    using f4 f6 f8 f10 f11 f13
    by (simp add: st14_def st12_def st9_def st7_def st5_def add_clause_frame st3_def st2_def st1_def)
  have qr: "quot_rem_expr st14 = (quot_rem_expr st)((a, b) \<mapsto> (n, Suc n))"
    using f4 f6 f8 f10 f11 f13
    by (simp add: st14_def st12_def st9_def st7_def st5_def add_clause_frame st3_def st2_def st1_def)
  have oc: "op_constraint_expr st14 = op_constraint_expr st"
    using f4 f6 f8 f10 f11 f13
    by (simp add: st14_def st12_def st9_def st7_def st5_def add_clause_frame st3_def st2_def st1_def)
  have ac: "added_clauses st14 = added_clauses st @
      [([c1], False), ([neg_sc c2], False), ([c3], False), ([c_eq, c4], False), ([neg_sc c_eq, c5], False)]"
    using f4 f6 f8 f10 f11 f13
    by (simp add: st14_def st12_def st9_def st7_def st5_def add_clause_frame st3_def st2_def st1_def)
  show ?thesis
    using res p qr oc ac by (auto simp: q_def r_def sz_def)
qed

lemma quot_rem_hit:
  assumes path: "\<not> is_zero m b" "\<not> is_one m b" "\<not> (is_val m a \<and> is_val m b)"
    and hit: "quot_rem_expr st (a, b) = Some (vq, vr)"
  shows "quot_rem m simplify a b st = ((mk_var m vq, mk_var m vr), st)"
proof -
  have nv: "(is_val m a \<and> is_val m b) = False" using path(3) by simp
  show ?thesis using path(1,2) hit by (simp add: quot_rem_def Let_def nv)
qed

lemma mk_op_term_miss:
  assumes miss: "op_constraint_expr st (op, p, q) = None"
  defines "n \<equiv> length (pvar_sizes st)"
  shows "\<exists>st1 c. mk_op_term m op p q st = (mk_var m n, st1) \<and>
           pvar_sizes st1 = pvar_sizes st @ [power_of_2 m] \<and>
           op_constraint_expr st1 = (op_constraint_expr st)((op, p, q) \<mapsto> n) \<and>
           quot_rem_expr st1 = quot_rem_expr st \<and>
           added_clauses st1 = added_clauses st @ [([c], False)]"
proof -
  define st1 where "st1 = st\<lparr>pvar_sizes := pvar_sizes st @ [power_of_2 m]\<rparr>"
  define st2 where "st2 = st1\<lparr>op_constraint_expr := (op_constraint_expr st1)((op, p, q) \<mapsto> n)\<rparr>"
  have av: "add_var (power_of_2 m) st = (n, st1)" by (simp add: add_var_def n_def st1_def)
  obtain c st3 where e: "mk_op_constraint op p q (mk_var m n) st2 = (c, st3)"
    by (cases "mk_op_constraint op p q (mk_var m n) st2") auto
  have res: "mk_op_term m op p q st = (mk_var m n, add_clause [c] False st3)"
    using miss by (simp add: mk_op_term_def Let_def av e st2_def [symmetric])
  note f = mk_op_constraint_frame [OF e]
  show ?thesis
    using res f by (auto simp: add_clause_frame st2_def st1_def)
qed

lemma mk_op_term_hit:
  "op_constraint_expr st (op, p, q) = Some v \<Longrightarrow> mk_op_term m op p q st = (mk_var m v, st)"
  by (simp add: mk_op_term_def Let_def)


lemma quot_rem_persist:
  "(quot_rem_expr st k = Some v \<longrightarrow> quot_rem_expr (snd (quot_rem m simplify a b st)) k = Some v) \<and>
   op_constraint_expr (snd (quot_rem m simplify a b st)) = op_constraint_expr st"
proof (cases "is_zero m b \<or> is_one m b \<or> (is_val m a \<and> is_val m b)")
  case True
  then have "snd (quot_rem m simplify a b st) = st"
    by (auto simp: quot_rem_def Let_def split: prod.splits)
  then show ?thesis by simp
next
  case False
  then have path: "\<not> is_zero m b" "\<not> is_one m b" "\<not> (is_val m a \<and> is_val m b)" by auto
  show ?thesis
  proof (cases "quot_rem_expr st (a, b)")
    case None
    from quot_rem_miss [OF path None, of simplify]
    obtain st1 where "snd (quot_rem m simplify a b st) = st1"
      "quot_rem_expr st1 = (quot_rem_expr st)((a, b) \<mapsto> (length (pvar_sizes st), Suc (length (pvar_sizes st))))"
      "op_constraint_expr st1 = op_constraint_expr st"
      by auto
    then show ?thesis using None by auto
  next
    case (Some w)
    then show ?thesis using quot_rem_hit [OF path, of st "fst w" "snd w" simplify] by simp
  qed
qed

lemma mk_op_term_persist:
  "(op_constraint_expr st k = Some v \<longrightarrow> op_constraint_expr (snd (mk_op_term m op p q st)) k = Some v) \<and>
   quot_rem_expr (snd (mk_op_term m op p q st)) = quot_rem_expr st"
proof (cases "op_constraint_expr st (op, p, q)")
  case None
  from mk_op_term_miss [OF None, of m]
  obtain st1 where "snd (mk_op_term m op p q st) = st1"
    "op_constraint_expr st1 = (op_constraint_expr st)((op, p, q) \<mapsto> length (pvar_sizes st))"
    "quot_rem_expr st1 = quot_rem_expr st"
    by auto
  then show ?thesis using None by auto
next
  case (Some w)
  then show ?thesis using mk_op_term_hit [of st op p q w m] by simp
qed

text \<open>
  The two memoization tables: what a miss and a hit do to the variables, the table and the
  number of emitted clauses, and that entries survive later calls.
\<close>

lemma memo_table_behaviour:
  "(\<not> is_zero m b \<and> \<not> is_one m b \<and> \<not> (is_val m a \<and> is_val m b) \<and> quot_rem_expr st (a, b) = None \<longrightarrow>
      (case quot_rem m simplify a b st of
         (res1, st1) \<Rightarrow>
           res1 = (mk_var m (length (pvar_sizes st)), mk_var m (Suc (length (pvar_sizes st)))) \<and>
           pvar_sizes st1 = pvar_sizes st @ [power_of_2 m, power_of_2 m] \<and>
           quot_rem_expr st1 =
             (quot_rem_expr st)((a, b) \<mapsto> (length (pvar_sizes st), Suc (length (pvar_sizes st)))) \<and>
           length (added_clauses st1) = length (added_clauses st) + 5 \<and>
           take (length (added_clauses st)) (added_clauses st1) = added_clauses st \<and>
           quot_rem m simplify a b st1 = (res1, st1))) \<and>
   (\<not> is_zero m b \<and> \<not> is_one m b \<and> \<not> (is_val m a \<and> is_val m b) \<longrightarrow>
      (\<forall>vq vr. quot_rem_expr st (a, b) = Some (vq, vr) \<longrightarrow>
         quot_rem m simplify a b st = ((mk_var m vq, mk_var m vr), st))) \<and>
   (op_constraint_expr st (op, p, q) = None \<longrightarrow>
      (case mk_op_term m op p q st of
         (r1, st1) \<Rightarrow>
           r1 = mk_var m (length (pvar_sizes st)) \<and>
           pvar_sizes st1 = pvar_sizes st @ [power_of_2 m] \<and>
           op_constraint_expr st1 = (op_constraint_expr st)((op, p, q) \<mapsto> length (pvar_sizes st)) \<and>
           length (added_clauses st1) = length (added_clauses st) + 1 \<and>
           take (length (added_clauses st)) (added_clauses st1) = added_clauses st \<and>
           mk_op_term m op p q st1 = (r1, st1))) \<and>
   (\<forall>v. op_constraint_expr st (op, p, q) = Some v \<longrightarrow> mk_op_term m op p q st = (mk_var m v, st)) \<and>
   (\<forall>k v. quot_rem_expr st k = Some v \<longrightarrow>
      quot_rem_expr (snd (quot_rem m simplify a b st)) k = Some v \<and>
      quot_rem_expr (snd (mk_op_term m op p q st)) k = Some v) \<and>
   (\<forall>k v. op_constraint_expr st k = Some v \<longrightarrow>
      op_constraint_expr (snd (quot_rem m simplify a b st)) k = Some v \<and>
      op_constraint_expr (snd (mk_op_term m op p q st)) k = Some v)"
proof (intro conjI impI allI)
  assume h: "\<not> is_zero m b \<and> \<not> is_one m b \<and> \<not> (is_val m a \<and> is_val m b) \<and> quot_rem_expr st (a, b) = None"
  then have path: "\<not> is_zero m b" "\<not> is_one m b" "\<not> (is_val m a \<and> is_val m b)"
    and miss: "quot_rem_expr st (a, b) = None" by auto
  let ?n = "length (pvar_sizes st)"
  from quot_rem_miss [OF path miss, of simplify]
  obtain st1 cs where r: "quot_rem m simplify a b st = ((mk_var m ?n, mk_var m (Suc ?n)), st1)"
    and f: "pvar_sizes st1 = pvar_sizes st @ [power_of_2 m, power_of_2 m]"
      "quot_rem_expr st1 = (quot_rem_expr st)((a, b) \<mapsto> (?n, Suc ?n))"
      "added_clauses st1 = added_clauses st @ cs" "length cs = 5"
    by auto
  have "quot_rem_expr st1 (a, b) = Some (?n, Suc ?n)" using f(2) by simp
  then have again: "quot_rem m simplify a b st1 = ((mk_var m ?n, mk_var m (Suc ?n)), st1)"
    by (rule quot_rem_hit [OF path])
  show "case quot_rem m simplify a b st of
         (res1, st1) \<Rightarrow>
           res1 = (mk_var m (length (pvar_sizes st)), mk_var m (Suc (length (pvar_sizes st)))) \<and>
           pvar_sizes st1 = pvar_sizes st @ [power_of_2 m, power_of_2 m] \<and>
           quot_rem_expr st1 =
             (quot_rem_expr st)((a, b) \<mapsto> (length (pvar_sizes st), Suc (length (pvar_sizes st)))) \<and>
           length (added_clauses st1) = length (added_clauses st) + 5 \<and>
           take (length (added_clauses st)) (added_clauses st1) = added_clauses st \<and>
           quot_rem m simplify a b st1 = (res1, st1)"
    using f again by (simp add: r)
next
  fix vq vr
  assume "\<not> is_zero m b \<and> \<not> is_one m b \<and> \<not> (is_val m a \<and> is_val m b)"
    and "quot_rem_expr st (a, b) = Some (vq, vr)"
  then show "quot_rem m simplify a b st = ((mk_var m vq, mk_var m vr), st)"
    using quot_rem_hit [of m b a st vq vr simplify] by blast
next
  assume miss: "op_constraint_expr st (op, p, q) = None"
  let ?n = "length (pvar_sizes st)"
  from mk_op_term_miss [OF miss, of m]
  obtain st1 c where r: "mk_op_term m op p q st = (mk_var m ?n, st1)"
    and f: "pvar_sizes st1 = pvar_sizes st @ [power_of_2 m]"
      "op_constraint_expr st1 = (op_constraint_expr st)((op, p, q) \<mapsto> ?n)"
      "added_clauses st1 = added_clauses st @ [([c], False)]"
    by auto
  have "op_constraint_expr st1 (op, p, q) = Some ?n" using f(2) by simp
  then have again: "mk_op_term m op p q st1 = (mk_var m ?n, st1)" by (rule mk_op_term_hit)
  show "case mk_op_term m op p q st of
         (r1, st1) \<Rightarrow>
           r1 = mk_var m (length (pvar_sizes st)) \<and>
           pvar_sizes st1 = pvar_sizes st @ [power_of_2 m] \<and>
           op_constraint_expr st1 = (op_constraint_expr st)((op, p, q) \<mapsto> length (pvar_sizes st)) \<and>
           length (added_clauses st1) = length (added_clauses st) + 1 \<and>
           take (length (added_clauses st)) (added_clauses st1) = added_clauses st \<and>
           mk_op_term m op p q st1 = (r1, st1)"
    using f again by (simp add: r)
next
  fix v assume "op_constraint_expr st (op, p, q) = Some v"
  then show "mk_op_term m op p q st = (mk_var m v, st)" by (rule mk_op_term_hit)
next
  fix k v assume "quot_rem_expr st k = Some v"
  then show "quot_rem_expr (snd (quot_rem m simplify a b st)) k = Some v"
    using quot_rem_persist [of st k v m simplify a b] by simp
next
  fix k v assume "quot_rem_expr st k = Some v"
  then show "quot_rem_expr (snd (mk_op_term m op p q st)) k = Some v"
    using mk_op_term_persist [of st _ _ m op p q] by simp
next
  fix k v assume "op_constraint_expr st k = Some v"
  then show "op_constraint_expr (snd (quot_rem m simplify a b st)) k = Some v"
    using quot_rem_persist [of st _ _ m simplify a b] by simp
next
  fix k v assume "op_constraint_expr st k = Some v"
  then show "op_constraint_expr (snd (mk_op_term m op p q st)) k = Some v"
    using mk_op_term_persist [of st k v m op p q] by simp
qed


section \<open>The table invariant through the builders\<close>


lemma dedup_alloc_inv:
  assumes "dedup_inv st" "alloc k st = (c1, st1)" "dedup c1 st1 = (c, st2)"
  shows "dedup_inv st2"
  using dedup_alloc_once(1) [OF assms(1), of k] assms(2,3) by simp

lemma ule_inv: "dedup_inv st \<Longrightarrow> ule simplify a b st = (sc, st') \<Longrightarrow> dedup_inv st'"
  unfolding ule_def by (auto simp: Let_def split: prod.splits dest: dedup_alloc_inv)

lemma eq_inv: "dedup_inv st \<Longrightarrow> eq m simplify p st = (sc, st') \<Longrightarrow> dedup_inv st'"
  unfolding eq_def by (rule ule_inv)

lemma ult_inv: "dedup_inv st \<Longrightarrow> ult simplify a b st = (sc, st') \<Longrightarrow> dedup_inv st'"
  unfolding ult_def by (auto simp: Let_def split: prod.splits dest: ule_inv)

lemma umul_ovfl_inv: "dedup_inv st \<Longrightarrow> umul_ovfl a b st = (sc, st') \<Longrightarrow> dedup_inv st'"
  unfolding umul_ovfl_def by (auto simp: Let_def split: prod.splits dest: dedup_alloc_inv)

lemma smul_ovfl_inv: "dedup_inv st \<Longrightarrow> smul_ovfl a b st = (sc, st') \<Longrightarrow> dedup_inv st'"
  unfolding smul_ovfl_def by (auto simp: Let_def split: prod.splits dest: dedup_alloc_inv)

lemma smul_udfl_inv: "dedup_inv st \<Longrightarrow> smul_udfl a b st = (sc, st') \<Longrightarrow> dedup_inv st'"
  unfolding smul_udfl_def by (auto simp: Let_def split: prod.splits dest: dedup_alloc_inv)

lemma mk_op_constraint_inv:
  "dedup_inv st \<Longrightarrow> mk_op_constraint op p q r st = (sc, st') \<Longrightarrow> dedup_inv st'"
  unfolding mk_op_constraint_def by (auto simp: Let_def split: prod.splits dest: dedup_alloc_inv)

lemma dedup_inv_frame [simp]:
  "dedup_inv (add_clause cs rd st) = dedup_inv st"
  "dedup_inv (st\<lparr>pvar_sizes := ps\<rparr>) = dedup_inv st"
  "dedup_inv (st\<lparr>quot_rem_expr := qe\<rparr>) = dedup_inv st"
  "dedup_inv (st\<lparr>op_constraint_expr := oe\<rparr>) = dedup_inv st"
  by (simp_all add: dedup_inv_def add_clause_def)

lemma quot_rem_inv:
  assumes inv: "dedup_inv st"
  shows "dedup_inv (snd (quot_rem m simplify a b st))"
proof (cases "is_zero m b \<or> is_one m b \<or> (is_val m a \<and> is_val m b)")
  case True
  then have "snd (quot_rem m simplify a b st) = st"
    by (auto simp: quot_rem_def Let_def split: prod.splits)
  then show ?thesis using inv by simp
next
  case False
  then have path: "\<not> is_zero m b" "\<not> is_one m b" "\<not> (is_val m a \<and> is_val m b)" by auto
  have nv: "(is_val m a \<and> is_val m b) = False" using path(3) by simp
  show ?thesis
  proof (cases "quot_rem_expr st (a, b)")
    case (Some w)
    then show ?thesis using quot_rem_hit [OF path, of st "fst w" "snd w" simplify] inv by simp
  next
    case None
    define n where "n = length (pvar_sizes st)"
    define sz where "sz = power_of_2 m"
    define q where "q = mk_var m n"
    define r where "r = mk_var m (Suc n)"
    define st1 where "st1 = st\<lparr>pvar_sizes := pvar_sizes st @ [sz]\<rparr>"
    define st2 where "st2 = st1\<lparr>pvar_sizes := pvar_sizes st1 @ [sz]\<rparr>"
    define st3 where "st3 = st2\<lparr>quot_rem_expr := (quot_rem_expr st2)((a, b) \<mapsto> (n, Suc n))\<rparr>"
    have av1: "add_var sz st = (n, st1)" by (simp add: add_var_def n_def st1_def)
    have av2: "add_var sz st1 = (Suc n, st2)" by (simp add: add_var_def n_def st1_def st2_def)
    obtain c1 st4 where e4: "eq m simplify (psub m (padd m (pmul m b q) r) a) st3 = (c1, st4)"
      by (cases "eq m simplify (psub m (padd m (pmul m b q) r) a) st3") auto
    define st5 where "st5 = add_clause [c1] False st4"
    obtain c2 st6 where e6: "umul_ovfl b q st5 = (c2, st6)"
      by (cases "umul_ovfl b q st5") auto
    define st7 where "st7 = add_clause [neg_sc c2] False st6"
    obtain c3 st8 where e8: "ule simplify (pmul m b q) (psub m (pneg m r) (mk_val m 1)) st7 = (c3, st8)"
      by (cases "ule simplify (pmul m b q) (psub m (pneg m r) (mk_val m 1)) st7") auto
    define st9 where "st9 = add_clause [c3] False st8"
    obtain c_eq st10 where e10: "eq m simplify b st9 = (c_eq, st10)"
      by (cases "eq m simplify b st9") auto
    obtain c4 st11 where e11: "ult simplify r b st10 = (c4, st11)"
      by (cases "ult simplify r b st10") auto
    define st12 where "st12 = add_clause [c_eq, c4] False st11"
    obtain c5 st13 where e13: "eq m simplify (padd m q (mk_val m 1)) st12 = (c5, st13)"
      by (cases "eq m simplify (padd m q (mk_val m 1)) st12") auto
    define st14 where "st14 = add_clause [neg_sc c_eq, c5] False st13"
    have res: "quot_rem m simplify a b st = ((q, r), st14)"
      using path(1,2) None
      by (simp add: quot_rem_def nv Let_def av1 av2 e4 e6 e8 e10 e11 e13
          sz_def [symmetric] q_def [symmetric] r_def [symmetric] st3_def [symmetric]
          st5_def [symmetric] st7_def [symmetric] st9_def [symmetric] st12_def [symmetric]
          st14_def [symmetric])
    have i3: "dedup_inv st3" using inv by (simp add: st3_def st2_def st1_def)
    have i5: "dedup_inv st5" using eq_inv [OF i3 e4] by (simp add: st5_def)
    have i7: "dedup_inv st7" using umul_ovfl_inv [OF i5 e6] by (simp add: st7_def)
    have i9: "dedup_inv st9" using ule_inv [OF i7 e8] by (simp add: st9_def)
    have i10: "dedup_inv st10" using eq_inv [OF i9 e10] .
    have i12: "dedup_inv st12" using ult_inv [OF i10 e11] by (simp add: st12_def)
    have "dedup_inv st14" using eq_inv [OF i12 e13] by (simp add: st14_def)
    then show ?thesis by (simp add: res)
  qed
qed

lemma mk_op_term_inv:
  assumes inv: "dedup_inv st"
  shows "dedup_inv (snd (mk_op_term m op p q st))"
proof (cases "op_constraint_expr st (op, p, q)")
  case (Some v)
  then show ?thesis using mk_op_term_hit [of st op p q v m] inv by simp
next
  case None
  define n where "n = length (pvar_sizes st)"
  define st1 where "st1 = st\<lparr>pvar_sizes := pvar_sizes st @ [power_of_2 m]\<rparr>"
  define st2 where "st2 = st1\<lparr>op_constraint_expr := (op_constraint_expr st1)((op, p, q) \<mapsto> n)\<rparr>"
  have av: "add_var (power_of_2 m) st = (n, st1)" by (simp add: add_var_def n_def st1_def)
  obtain c st3 where e: "mk_op_constraint op p q (mk_var m n) st2 = (c, st3)"
    by (cases "mk_op_constraint op p q (mk_var m n) st2") auto
  have res: "mk_op_term m op p q st = (mk_var m n, add_clause [c] False st3)"
    using None by (simp add: mk_op_term_def Let_def av e st2_def [symmetric])
  have "dedup_inv st2" using inv by (simp add: st2_def st1_def)
  then have "dedup_inv st3" using e by (rule mk_op_constraint_inv)
  then show ?thesis by (simp add: res)
qed

lemma ule_no_new_var:
  assumes inv: "dedup_inv st" and s: "simplify True a b = (pos, lhs, rhs)"
    and live: "\<exists>c. c_payload st c = Some (ule_constraint lhs rhs)"
  shows "bvars_size (snd (ule simplify a b st)) = bvars_size st"
  using dedup_alloc_once(5) [OF inv live] by (simp add: ule_unfold s)


section \<open>Signed comparison\<close>


lemma sign_flip_int:
  fixes a b h :: int
  assumes "0 < h" "0 \<le> a" "a < 2 * h" "0 \<le> b" "b < 2 * h"
  shows "((a + h) mod (2 * h) \<le> (b + h) mod (2 * h)) \<longleftrightarrow>
         ((if a < h then a else a - 2 * h) \<le> (if b < h then b else b - 2 * h))"
proof -
  have flip: "(x + h) mod (2 * h) = (if x < h then x + h else x - h)"
    if "0 \<le> x" "x < 2 * h" for x
  proof (cases "x < h")
    case True
    then show ?thesis using that assms(1) by (simp add: mod_pos_pos_trivial)
  next
    case False
    have "(x + h) mod (2 * h) = (x - h + 2 * h) mod (2 * h)" by (simp add: algebra_simps)
    also have "\<dots> = (x - h) mod (2 * h)" by (rule mod_add_self2)
    also have "\<dots> = x - h" using False that assms(1) by (simp add: mod_pos_pos_trivial)
    finally show ?thesis using False by simp
  qed
  show ?thesis
    using assms by (simp add: flip)
qed

lemma ule_result:
  assumes inv: "dedup_inv st" and s: "simplify True x y = (pos, l, r)"
    and u: "ule simplify x y st = (sc, st')"
  shows "snd sc = pos \<and> c_payload st' (fst sc) = Some (ule_constraint l r)"
  using dedup_alloc_once(2) [OF inv, of "ule_constraint l r"] u
  by (auto simp: ule_unfold s)

lemma sle_unfold:
  assumes "power_of_2 m \<noteq> 0"
  shows "sle m simplify a b st =
           ule simplify (padd m a (mk_val m (2 ^ (unat (power_of_2 m) - 1))))
                        (padd m b (mk_val m (2 ^ (unat (power_of_2 m) - 1)))) st"
  using assms by (simp add: sle_def Let_def unat_minus_one)

lemma pdd_laws_mk_val:
  "pdd_laws m \<Longrightarrow> is_val m (mk_val m v)"
  "pdd_laws m \<Longrightarrow> val m (mk_val m v) = v mod 2 ^ unat (power_of_2 m)"
  by (simp_all add: pdd_laws_def)

lemma pdd_laws_range:
  "pdd_laws m \<Longrightarrow> is_val m p \<Longrightarrow> 0 \<le> val m p"
  "pdd_laws m \<Longrightarrow> is_val m p \<Longrightarrow> val m p < 2 ^ unat (power_of_2 m)"
  by (simp_all add: pdd_laws_def)

lemma pdd_laws_padd:
  "pdd_laws m \<Longrightarrow> is_val m p \<Longrightarrow> is_val m q \<Longrightarrow> padd m p q = mk_val m (val m p + val m q)"
  by (simp add: pdd_laws_def)

lemma simplify_soundD:
  assumes "simplify_sound m simplify" "is_val m l" "is_val m r" "simplify pos l r = (pos', l', r')"
  shows "is_val m l' \<and> is_val m r' \<and> ((pos' = (val m l' \<le> val m r')) = (pos = (val m l \<le> val m r)))"
proof -
  from assms(1) have "is_val m l \<and> is_val m r \<longrightarrow>
        (case simplify pos l r of
           (pos', l', r') \<Rightarrow>
             is_val m l' \<and> is_val m r' \<and>
             ((pos' = (val m l' \<le> val m r')) = (pos = (val m l \<le> val m r))))"
    unfolding simplify_sound_def by (elim allE)
  then show ?thesis using assms(2-4) by simp
qed

lemma sle_semantics:
  assumes L: "pdd_laws m" and S: "simplify_sound m simplify" and K: "power_of_2 m \<noteq> 0"
    and inv: "dedup_inv st" and a: "is_val m a" and b: "is_val m b"
    and r: "sle m simplify a b st = (sc, st')"
  shows "sc_holds m st' sc \<longleftrightarrow> signed_val m (val m a) \<le> signed_val m (val m b)"
proof -
  define k where "k = unat (power_of_2 m)"
  define h :: int where "h = 2 ^ (k - 1)"
  have kpos: "0 < k" using K by (simp add: k_def unat_gt_0)
  have N: "(2::int) ^ k = 2 * h"
    using kpos by (cases k) (simp_all add: h_def)
  have hpos: "0 < h" by (simp add: h_def)
  define A where "A = padd m a (mk_val m h)"
  define B where "B = padd m b (mk_val m h)"
  have ra: "0 \<le> val m a" "val m a < 2 * h" and rb: "0 \<le> val m b" "val m b < 2 * h"
    using pdd_laws_range [OF L a] pdd_laws_range [OF L b] N by (simp_all add: k_def)
  have "h mod (2 * h) = h" using hpos by (simp add: mod_pos_pos_trivial)
  then have vh: "is_val m (mk_val m h)" "val m (mk_val m h) = h"
    using pdd_laws_mk_val [OF L, of h] N by (simp_all add: k_def)
  have eqA: "A = mk_val m (val m a + h)" and eqB: "B = mk_val m (val m b + h)"
    using pdd_laws_padd [OF L a vh(1)] pdd_laws_padd [OF L b vh(1)] vh(2)
    by (simp_all add: A_def B_def)
  have vA: "is_val m A" "val m A = (val m a + h) mod (2 * h)"
    and vB: "is_val m B" "val m B = (val m b + h) mod (2 * h)"
    using pdd_laws_mk_val [OF L, of "val m a + h"] pdd_laws_mk_val [OF L, of "val m b + h"] N
    by (simp_all add: eqA eqB k_def)
  obtain pos l' r' where s: "simplify True A B = (pos, l', r')"
    by (cases "simplify True A B") auto
  have snd: "is_val m l'" "is_val m r'" "(pos = (val m l' \<le> val m r')) = (val m A \<le> val m B)"
    using simplify_soundD [OF S vA(1) vB(1) s] by simp_all
  have u: "ule simplify A B st = (sc, st')"
    using r sle_unfold [OF K, of simplify a b st] by (simp add: A_def B_def h_def k_def)
  from ule_result [OF inv s u]
  have "sc_holds m st' sc \<longleftrightarrow> (pos = (val m l' \<le> val m r'))"
    by (auto simp: sc_holds_def)
  also have "\<dots> \<longleftrightarrow> (val m A \<le> val m B)" using snd(3) .
  also have "\<dots> \<longleftrightarrow> ((val m a + h) mod (2 * h) \<le> (val m b + h) mod (2 * h))"
    by (simp add: vA vB)
  also have "\<dots> \<longleftrightarrow> ((if val m a < h then val m a else val m a - 2 * h)
                     \<le> (if val m b < h then val m b else val m b - 2 * h))"
    using hpos ra rb by (rule sign_flip_int)
  also have "\<dots> \<longleftrightarrow> signed_val m (val m a) \<le> signed_val m (val m b)"
  proof -
    have hs: "(2::int) ^ (k - Suc 0) = h" by (simp add: h_def)
    show ?thesis by (simp add: signed_val_def k_def [symmetric] hs N)
  qed
  finally show ?thesis .
qed

lemma ex_simplify_sound: "simplify_sound ex_mgr ex_simplify"
  by (simp add: simplify_sound_def ex_simplify_def)

text \<open>
  Claim C8. \<^verbatim>\<open>sle(a, b)\<close> is \<^verbatim>\<open>ule(a + 2^(K-1), b + 2^(K-1))\<close> for the bit-width K.
  For constants \<open>a\<close> and \<open>b\<close> the constraint it returns holds exactly when \<open>a \<le> b\<close> in
  the two's-complement reading of K-bit values, for all values, the smallest negative, the
  largest positive and zero among them. The polynomial layer obeys \<open>pdd_laws\<close> and the
  simplifier of \<^verbatim>\<open>ule\<close> keeps the truth of comparisons of constants.
\<close>

theorem sle_signed_order:
  assumes "power_of_2 m \<noteq> 0"
  shows "sle m simplify a b st =
           ule simplify (padd m a (mk_val m (2 ^ (unat (power_of_2 m) - 1))))
                        (padd m b (mk_val m (2 ^ (unat (power_of_2 m) - 1)))) st \<and>
         (pdd_laws m \<and> simplify_sound m simplify \<and> dedup_inv st \<and> is_val m a \<and> is_val m b \<longrightarrow>
            (case sle m simplify a b st of
               (sc, st') \<Rightarrow>
                 sc_holds m st' sc \<longleftrightarrow> signed_val m (val m a) \<le> signed_val m (val m b)))"
proof (intro conjI impI)
  show "sle m simplify a b st =
           ule simplify (padd m a (mk_val m (2 ^ (unat (power_of_2 m) - 1))))
                        (padd m b (mk_val m (2 ^ (unat (power_of_2 m) - 1)))) st"
    using assms by (rule sle_unfold)
next
  assume h: "pdd_laws m \<and> simplify_sound m simplify \<and> dedup_inv st \<and> is_val m a \<and> is_val m b"
  obtain sc st' where r: "sle m simplify a b st = (sc, st')"
    by (cases "sle m simplify a b st") auto
  show "case sle m simplify a b st of
               (sc, st') \<Rightarrow>
                 sc_holds m st' sc \<longleftrightarrow> signed_val m (val m a) \<le> signed_val m (val m b)"
    using sle_semantics [OF _ _ assms _ _ _ r] h by (simp add: r)
qed

theorem sle_signed_order_witness:
  "power_of_2 ex_mgr \<noteq> 0 \<and> pdd_laws ex_mgr \<and> simplify_sound ex_mgr ex_simplify \<and>
   dedup_inv (init_state :: ex_pdd manager_state) \<and> is_val ex_mgr (PVal 8) \<and> is_val ex_mgr (PVal 7) \<and>
   signed_val ex_mgr (val ex_mgr (PVal 8)) = - 8 \<and> signed_val ex_mgr (val ex_mgr (PVal 7)) = 7 \<and>
   sc_holds ex_mgr (snd (sle ex_mgr ex_simplify (PVal 8) (PVal 7) init_state))
                   (fst (sle ex_mgr ex_simplify (PVal 8) (PVal 7) init_state)) \<and>
   \<not> sc_holds ex_mgr (snd (sle ex_mgr ex_simplify (PVal 0) (PVal 8) init_state))
                     (fst (sle ex_mgr ex_simplify (PVal 0) (PVal 8) init_state))"
proof -
  have k: "power_of_2 ex_mgr \<noteq> 0" by (simp add: ex_mgr_def)
  have v: "is_val ex_mgr (PVal 8)" "is_val ex_mgr (PVal 7)" "is_val ex_mgr (PVal 0)"
    "signed_val ex_mgr (val ex_mgr (PVal 8)) = - 8" "signed_val ex_mgr (val ex_mgr (PVal 7)) = 7"
    "signed_val ex_mgr (val ex_mgr (PVal 0)) = 0"
    by (simp_all add: ex_mgr_def signed_val_def)
  note t1 = sle_signed_order [OF k, of ex_simplify "PVal 8" "PVal 7" init_state, THEN conjunct2]
  note t2 = sle_signed_order [OF k, of ex_simplify "PVal 0" "PVal 8" init_state, THEN conjunct2]
  have i: "dedup_inv (init_state :: ex_pdd manager_state)" by (rule init_state_inv)
  have "sc_holds ex_mgr (snd (sle ex_mgr ex_simplify (PVal 8) (PVal 7) init_state))
                   (fst (sle ex_mgr ex_simplify (PVal 8) (PVal 7) init_state))"
    using t1 v ex_mgr_laws ex_simplify_sound i by (simp add: case_prod_beta)
  moreover have "\<not> sc_holds ex_mgr (snd (sle ex_mgr ex_simplify (PVal 0) (PVal 8) init_state))
                     (fst (sle ex_mgr ex_simplify (PVal 0) (PVal 8) init_state))"
    using t2 v ex_mgr_laws ex_simplify_sound i by (simp add: case_prod_beta)
  ultimately show ?thesis
    using k v ex_mgr_laws ex_simplify_sound i by simp
qed

section \<open>Watching, unwatching and releasing a clause\<close>

text \<open>
  What holds of \<^verbatim>\<open>unwatch\<close> and \<^verbatim>\<open>release_level\<close> whatever the polarity of the watch
  lists: \<^verbatim>\<open>unwatch\<close> does nothing on a clause of at most one literal, and
  \<^verbatim>\<open>release_level(lvl)\<close> empties the buckets from \<open>lvl\<close> up and leaves the buckets
  below \<open>lvl\<close> as they are.
\<close>


lemma unwatch_small_noop:
  "length (clause_lits st cl) \<le> 1 \<Longrightarrow> unwatch cl st = st"
  by (simp add: unwatch_def)

lemma unwatch_m_clauses [simp]: "m_clauses (unwatch cl st) = m_clauses st"
  by (simp add: unwatch_def watch_erase_def Let_def)

lemma fold_unwatch_m_clauses [simp]: "m_clauses (fold unwatch cls st) = m_clauses st"
  by (induction cls arbitrary: st) simp_all

lemma release_level_loop_buckets:
  assumes "l \<le> length (m_clauses st)"
  shows "length (m_clauses (release_level_loop lvl l st)) = length (m_clauses st) \<and>
         (\<forall>i < length (m_clauses st).
            m_clauses (release_level_loop lvl l st) ! i =
              (if lvl \<le> i \<and> i < l then [] else m_clauses st ! i))"
  using assms
proof (induction lvl l st rule: release_level_loop.induct)
  case (1 lvl l st)
  show ?case
  proof (cases "l > lvl")
    case False
    then show ?thesis by (subst (1 2) release_level_loop.simps) auto
  next
    case True
    let ?st1 = "fold unwatch (m_clauses st ! (l - 1)) st"
    let ?st2 = "?st1\<lparr>m_clauses := (m_clauses ?st1)[l - 1 := []]\<rparr>"
    have m2: "m_clauses ?st2 = (m_clauses st)[l - 1 := []]" by simp
    have step: "release_level_loop lvl l st = release_level_loop lvl (l - 1) ?st2"
      using True by (subst release_level_loop.simps) (simp add: Let_def)
    have le: "l - 1 \<le> length (m_clauses ?st2)" using "1.prems" by (simp add: m2)
    note IH = "1.IH" [OF True refl refl refl le]
    show ?thesis
      using IH True "1.prems" by (auto simp: step m2 nth_list_update)
  qed
qed

lemma release_level_buckets:
  "length (m_clauses (release_level lvl st)) = length (m_clauses st) \<and>
   (\<forall>i < length (m_clauses st).
      m_clauses (release_level lvl st) ! i = (if lvl \<le> i then [] else m_clauses st ! i))"
  using release_level_loop_buckets [of "length (m_clauses st)" st lvl]
  by (simp add: release_level_def)


lemma normalize_watch_two_undef:
  "normalize_watch (\<lambda>_. l_undef) (\<lambda>_. 0) [Lit 2 False, Lit 3 False] = Some [Lit 2 False, Lit 3 False]"
  by (simp add: normalize_watch_def normalize_watch_loop.simps get_watch_level_def Let_def)

lemma ex_clause_state_fields:
  "clause_lits ex_clause_state 0 = [Lit 2 False, Lit 3 False]"
  "bvars_value ex_clause_state = (\<lambda>_. l_undef)"
  "bvars_level ex_clause_state = (\<lambda>_. 0)"
  "bvars_watch ex_clause_state = (\<lambda>_. [])"
  "m_clauses ex_clause_state = []"
  by (simp_all add: ex_clause_state_def init_state_def)

lemma watch_example:
  "watch ops 0 False ex_clause_state =
     ex_clause_state\<lparr>bvars_watch := (\<lambda>_. [])(Lit 2 False := [0], Lit 3 False := [0])\<rparr>"
proof -
  have c: "(clause_lits ex_clause_state)(0 := [Lit 2 False, Lit 3 False]) = clause_lits ex_clause_state"
    by (simp add: ex_clause_state_def init_state_def)
  show ?thesis
    by (simp add: watch_def ex_clause_state_fields normalize_watch_two_undef c
        watch_push_back_def is_true_def is_false_def Let_def)
qed

lemma unwatch_example:
  "unwatch 0 (ex_clause_state\<lparr>bvars_watch := (\<lambda>_. [])(Lit 2 False := [0], Lit 3 False := [0])\<rparr>)
     = ex_clause_state\<lparr>bvars_watch := (\<lambda>_. [])(Lit 2 False := [0], Lit 3 False := [0])\<rparr>"
proof -
  have w: "((\<lambda>_. [])(Lit 2 False := [0::nat], Lit 3 False := [0]))(Lit 2 True := [], Lit 3 True := [])
            = (\<lambda>_. [])(Lit 2 False := [0], Lit 3 False := [0])"
    by (auto simp: fun_eq_iff)
  show ?thesis
    by (simp add: unwatch_def watch_erase_def ex_clause_state_fields w)
qed

text \<open>
  Claim C6. \<^verbatim>\<open>watch\<close> registers a clause of two literals in the watch lists of its two
  front literals, and \<^verbatim>\<open>unwatch\<close> should take it out of both again. On the clause of
  the unassigned literals 2 and 3, with empty watch lists before, \<^verbatim>\<open>watch\<close> puts the
  clause into the lists of both literals; \<^verbatim>\<open>unwatch\<close> then erases it from the lists of
  the negated literals, where it is not, and changes nothing: the clause is still in both
  lists, which are not as they were before \<^verbatim>\<open>watch\<close>. This holds for every behaviour of
  the solver's trail operations \<open>ops\<close>, which this path does not call.
\<close>

theorem unwatch_misses_watch_lists:
  "bvars_watch ex_clause_state (Lit 2 False) = [] \<and>
   bvars_watch ex_clause_state (Lit 3 False) = [] \<and>
   bvars_watch (watch ops 0 False ex_clause_state) (Lit 2 False) = [0] \<and>
   bvars_watch (watch ops 0 False ex_clause_state) (Lit 3 False) = [0] \<and>
   unwatch 0 (watch ops 0 False ex_clause_state) = watch ops 0 False ex_clause_state \<and>
   bvars_watch (unwatch 0 (watch ops 0 False ex_clause_state)) (Lit 2 False) = [0] \<and>
   bvars_watch (unwatch 0 (watch ops 0 False ex_clause_state)) (Lit 3 False) = [0]"
  by (simp add: watch_example unwatch_example ex_clause_state_fields)

lemma register_clause_example:
  "register_clause 0 ex_clause_state = ex_clause_state\<lparr>m_clauses := [[0]]\<rparr>"
  by (simp add: register_clause_def ex_clause_state_fields Let_def)

lemma store_clause_example:
  "store_clause ops 0 False ex_clause_state =
     ex_clause_state\<lparr>m_clauses := [[0]],
                      bvars_watch := (\<lambda>_. [])(Lit 2 False := [0], Lit 3 False := [0])\<rparr>"
proof -
  have c: "(clause_lits ex_clause_state)(0 := [Lit 2 False, Lit 3 False]) = clause_lits ex_clause_state"
    by (simp add: ex_clause_state_def init_state_def)
  show ?thesis
    by (simp add: store_clause_def register_clause_example watch_def ex_clause_state_fields
        normalize_watch_two_undef c watch_push_back_def is_true_def is_false_def Let_def)
qed

lemma release_example:
  "release_level 0 (ex_clause_state\<lparr>m_clauses := [[0]],
                      bvars_watch := (\<lambda>_. [])(Lit 2 False := [0], Lit 3 False := [0])\<rparr>)
     = ex_clause_state\<lparr>m_clauses := [[]],
                      bvars_watch := (\<lambda>_. [])(Lit 2 False := [0], Lit 3 False := [0])\<rparr>"
proof -
  have w: "((\<lambda>_. [])(Lit 2 False := [0::nat], Lit 3 False := [0]))(Lit 2 True := [], Lit 3 True := [])
            = (\<lambda>_. [])(Lit 2 False := [0], Lit 3 False := [0])"
    by (auto simp: fun_eq_iff)
  show ?thesis
    by (simp add: release_level_def release_level_loop.simps unwatch_def watch_erase_def
        ex_clause_state_fields w Let_def)
qed

text \<open>
  Claim C5. After \<^verbatim>\<open>release_level(L)\<close> no clause of a bucket at level \<open>L\<close> or above
  should remain watched. On the same clause, stored by \<^verbatim>\<open>store(cl, false)\<close> and so filed
  in bucket 0 and watched, \<^verbatim>\<open>release_level(0)\<close> empties bucket 0 but the clause stays in
  the watch lists of its two front literals, because \<^verbatim>\<open>unwatch\<close> erases from the lists
  of the negated literals.
\<close>

theorem release_level_leaves_clause_watched:
  "m_clauses (store_clause ops 0 False ex_clause_state) = [[0]] \<and>
   m_clauses (release_level 0 (store_clause ops 0 False ex_clause_state)) = [[]] \<and>
   bvars_watch (release_level 0 (store_clause ops 0 False ex_clause_state)) (Lit 2 False) = [0] \<and>
   bvars_watch (release_level 0 (store_clause ops 0 False ex_clause_state)) (Lit 3 False) = [0]"
  by (simp add: store_clause_example release_example)

section \<open>Constraints through sequences of builder calls\<close>


lemma dedup_extends_refl: "dedup_inv st \<Longrightarrow> dedup_extends st st"
  by (simp add: dedup_extends_def)

lemma dedup_extends_trans:
  "dedup_extends st st1 \<Longrightarrow> dedup_extends st1 st2 \<Longrightarrow> dedup_extends st st2"
proof -
  assume a: "dedup_extends st st1" and b: "dedup_extends st1 st2"
  have p: "\<And>c k. c_payload st c = Some k \<Longrightarrow> c_payload st2 c = Some k \<and> c_bvar st2 c = c_bvar st c"
  proof -
    fix c k assume h: "c_payload st c = Some k"
    then have 1: "c_payload st1 c = Some k" "c_bvar st1 c = c_bvar st c"
      using a by (simp_all add: dedup_extends_def)
    then have "c_payload st2 c = Some k" "c_bvar st2 c = c_bvar st1 c"
      using b by (simp_all add: dedup_extends_def)
    then show "c_payload st2 c = Some k \<and> c_bvar st2 c = c_bvar st c" using 1 by simp
  qed
  have n: "bvars_size st2 + length (dedup_constraints st) = bvars_size st + length (dedup_constraints st2)"
    using a b by (simp add: dedup_extends_def)
  show ?thesis
    using b p n by (simp add: dedup_extends_def)
qed

lemma dedup_extends_frame [simp]:
  "dedup_extends st (add_clause cs rd st') = dedup_extends st st'"
  "dedup_extends st (st'\<lparr>pvar_sizes := ps\<rparr>) = dedup_extends st st'"
  "dedup_extends st (st'\<lparr>quot_rem_expr := qe\<rparr>) = dedup_extends st st'"
  "dedup_extends st (st'\<lparr>op_constraint_expr := oe\<rparr>) = dedup_extends st st'"
  "dedup_extends (add_clause cs rd st) st' = dedup_extends st st'"
  "dedup_extends (st\<lparr>pvar_sizes := ps\<rparr>) st' = dedup_extends st st'"
  "dedup_extends (st\<lparr>quot_rem_expr := qe\<rparr>) st' = dedup_extends st st'"
  "dedup_extends (st\<lparr>op_constraint_expr := oe\<rparr>) st' = dedup_extends st st'"
  by (simp_all add: dedup_extends_def) (simp_all add: add_clause_def)

lemma dedup_alloc_extends:
  assumes inv: "dedup_inv st"
  shows "dedup_extends st (snd (dedup (fst (alloc k st)) (snd (alloc k st))))"
proof (rule dedup_alloc_cases [OF inv, of k])
  fix c
  assume hit: "c_payload st c = Some k"
    "dedup (fst (alloc k st)) (snd (alloc k st)) =
       (c, st\<lparr>c_bvar := (c_bvar st)(next_cref st := None), next_cref := Suc (next_cref st)\<rparr>)"
  have fresh: "c_payload st (next_cref st) = None" using inv by (rule dedup_inv_fresh)
  have "\<And>c' k'. c_payload st c' = Some k' \<Longrightarrow> c' \<noteq> next_cref st" using fresh by auto
  then show ?thesis
    using dedup_inv_hit_state [OF inv] by (auto simp: hit(2) dedup_extends_def)
next
  assume miss: "\<forall>c. c_payload st c \<noteq> Some k"
    "dedup (fst (alloc k st)) (snd (alloc k st)) =
           (next_cref st,
            st\<lparr>c_payload := (c_payload st)(next_cref st \<mapsto> k),
               c_bvar := (c_bvar st)(next_cref st \<mapsto> bvars_size st),
               next_cref := Suc (next_cref st),
               bvars_size := Suc (bvars_size st),
               m_bv2constraint := (m_bv2constraint st)(bvars_size st \<mapsto> next_cref st),
               dedup_constraints := next_cref st # dedup_constraints st,
               m_constraints := m_constraints st @ [next_cref st]\<rparr>)"
  have fresh: "c_payload st (next_cref st) = None" using inv by (rule dedup_inv_fresh)
  have ne: "\<And>c' k'. c_payload st c' = Some k' \<Longrightarrow> c' \<noteq> next_cref st" using fresh by auto
  show ?thesis
    using dedup_inv_miss_state [OF inv miss(1)] ne
    by (auto simp: miss(2) dedup_extends_def)
qed

lemma dedup_alloc_ran:
  assumes inv: "dedup_inv st"
  shows "ran (c_payload (snd (dedup (fst (alloc k st)) (snd (alloc k st))))) = insert k (ran (c_payload st))"
proof (rule dedup_alloc_cases [OF inv, of k])
  fix c
  assume hit: "c_payload st c = Some k"
    "dedup (fst (alloc k st)) (snd (alloc k st)) =
       (c, st\<lparr>c_bvar := (c_bvar st)(next_cref st := None), next_cref := Suc (next_cref st)\<rparr>)"
  have "k \<in> ran (c_payload st)" using hit(1) by (auto simp: ran_def)
  then show ?thesis by (auto simp: hit(2))
next
  assume miss: "\<forall>c. c_payload st c \<noteq> Some k"
    "dedup (fst (alloc k st)) (snd (alloc k st)) =
           (next_cref st,
            st\<lparr>c_payload := (c_payload st)(next_cref st \<mapsto> k),
               c_bvar := (c_bvar st)(next_cref st \<mapsto> bvars_size st),
               next_cref := Suc (next_cref st),
               bvars_size := Suc (bvars_size st),
               m_bv2constraint := (m_bv2constraint st)(bvars_size st \<mapsto> next_cref st),
               dedup_constraints := next_cref st # dedup_constraints st,
               m_constraints := m_constraints st @ [next_cref st]\<rparr>)"
  have fresh: "c_payload st (next_cref st) = None" using inv by (rule dedup_inv_fresh)
  show ?thesis using fresh by (simp add: miss(2))
qed

lemma dedup_alloc_miss_facts:
  assumes inv: "dedup_inv st" and nc: "\<forall>c. c_payload st c \<noteq> Some k"
  shows "bvars_size (snd (dedup (fst (alloc k st)) (snd (alloc k st)))) = Suc (bvars_size st)"
    and "c_payload st (fst (dedup (fst (alloc k st)) (snd (alloc k st)))) = None"
  using dedup_miss [OF inv nc] dedup_inv_fresh [OF inv] by simp_all

lemma dedup_inv_card:
  assumes inv: "dedup_inv st"
  shows "card (ran (c_payload st)) = length (dedup_constraints st)"
proof -
  let ?T = "set (dedup_constraints st)"
  have inj: "inj_on (c_payload st) ?T" and d: "distinct (dedup_constraints st)"
    using inv by (auto simp: dedup_inv_def distinct_map)
  have some: "\<And>c. c \<in> ?T \<Longrightarrow> c_payload st c \<noteq> None"
    using inv by (simp add: dedup_inv_def)
  have r: "ran (c_payload st) = (\<lambda>c. the (c_payload st c)) ` ?T"
  proof (intro set_eqI iffI)
    fix k assume "k \<in> ran (c_payload st)"
    then obtain c where c: "c_payload st c = Some k" by (auto simp: ran_def)
    then have "c \<in> ?T" using inv by (auto simp: dedup_inv_def)
    then show "k \<in> (\<lambda>c. the (c_payload st c)) ` ?T" using c by force
  next
    fix k assume "k \<in> (\<lambda>c. the (c_payload st c)) ` ?T"
    then obtain c where "c \<in> ?T" "k = the (c_payload st c)" by auto
    then show "k \<in> ran (c_payload st)" using some [of c] by (auto simp: ran_def)
  qed
  have inj2: "inj_on (\<lambda>c. the (c_payload st c)) ?T"
  proof (rule inj_onI)
    fix x y assume "x \<in> ?T" "y \<in> ?T" "the (c_payload st x) = the (c_payload st y)"
    then have "c_payload st x = c_payload st y" using some [of x] some [of y] by auto
    then show "x = y" using inj \<open>x \<in> ?T\<close> \<open>y \<in> ?T\<close> by (auto dest: inj_onD)
  qed
  show ?thesis
    using d by (simp add: r card_image [OF inj2] distinct_card)
qed

lemma dedup_extends_ran:
  "dedup_extends st st' \<Longrightarrow> ran (c_payload st) \<subseteq> ran (c_payload st')"
  by (auto simp: dedup_extends_def ran_def)

lemma dedup_extends_card:
  assumes "dedup_inv st" "dedup_extends st st'"
  shows "bvars_size st' + card (ran (c_payload st)) = bvars_size st + card (ran (c_payload st'))"
proof -
  have "dedup_inv st'" using assms(2) by (simp add: dedup_extends_def)
  then show ?thesis
    using assms dedup_inv_card [of st] dedup_inv_card [of st'] by (simp add: dedup_extends_def)
qed

lemma ule_extends:
  "dedup_inv st \<Longrightarrow> ule simplify a b st = (sc, st') \<Longrightarrow> dedup_extends st st'"
  by (cases "simplify True a b") (auto simp: ule_unfold dedup_alloc_extends)

lemma eq_extends:
  "dedup_inv st \<Longrightarrow> eq m simplify p st = (sc, st') \<Longrightarrow> dedup_extends st st'"
  unfolding eq_def by (rule ule_extends)

lemma ult_extends:
  "dedup_inv st \<Longrightarrow> ult simplify a b st = (sc, st') \<Longrightarrow> dedup_extends st st'"
  unfolding ult_def by (auto simp: Let_def split: prod.splits dest: ule_extends)

lemma umul_ovfl_extends:
  "dedup_inv st \<Longrightarrow> umul_ovfl a b st = (sc, st') \<Longrightarrow> dedup_extends st st'"
  using dedup_alloc_extends [of st "umul_ovfl_constraint a b"]
  by (auto simp: umul_ovfl_def case_prod_beta)

lemma smul_ovfl_extends:
  "dedup_inv st \<Longrightarrow> smul_ovfl a b st = (sc, st') \<Longrightarrow> dedup_extends st st'"
  using dedup_alloc_extends [of st "smul_fl_constraint a b True"]
  by (auto simp: smul_ovfl_def case_prod_beta)

lemma smul_udfl_extends:
  "dedup_inv st \<Longrightarrow> smul_udfl a b st = (sc, st') \<Longrightarrow> dedup_extends st st'"
  using dedup_alloc_extends [of st "smul_fl_constraint a b False"]
  by (auto simp: smul_udfl_def case_prod_beta)

lemma mk_op_constraint_extends:
  "dedup_inv st \<Longrightarrow> mk_op_constraint op p q r st = (sc, st') \<Longrightarrow> dedup_extends st st'"
  using dedup_alloc_extends [of st "op_constraint op p q r"]
  by (auto simp: mk_op_constraint_def case_prod_beta)

lemma ule_is_ule:
  assumes inv: "dedup_inv st" and u: "ule simplify a b st = (sc, st')"
  shows "is_ule simplify st' a b sc"
proof -
  obtain pos l r where s: "simplify True a b = (pos, l, r)" by (cases "simplify True a b") auto
  note o = dedup_alloc_once(2,3) [OF inv, of "ule_constraint l r"]
  show ?thesis using o u by (auto simp: is_ule_def ule_unfold s)
qed

lemma eq_is_eq:
  "dedup_inv st \<Longrightarrow> eq m simplify p st = (sc, st') \<Longrightarrow> is_eq m simplify st' p sc"
  unfolding eq_def is_eq_def by (rule ule_is_ule)

lemma neg_sc_neg_sc [simp]: "neg_sc (neg_sc sc) = sc"
  by (simp add: neg_sc_def)

lemma ult_is_ult:
  "dedup_inv st \<Longrightarrow> ult simplify a b st = (sc, st') \<Longrightarrow> is_ult simplify st' a b sc"
  unfolding ult_def is_ult_def
  by (auto simp: Let_def split: prod.splits dest: ule_is_ule)

lemma umul_ovfl_is_constraint:
  assumes inv: "dedup_inv st" and u: "umul_ovfl a b st = (sc, st')"
  shows "is_constraint st' (umul_ovfl_constraint a b) True sc"
  using dedup_alloc_once(2,3) [OF inv, of "umul_ovfl_constraint a b"] u
  by (auto simp: is_constraint_def umul_ovfl_def case_prod_beta)

lemma mk_op_constraint_is_constraint:
  assumes inv: "dedup_inv st" and u: "mk_op_constraint op p q r st = (sc, st')"
  shows "is_constraint st' (op_constraint op p q r) True sc"
  using dedup_alloc_once(2,3) [OF inv, of "op_constraint op p q r"] u
  by (auto simp: is_constraint_def mk_op_constraint_def case_prod_beta)

lemma is_ule_extends:
  "is_ule simplify st a b sc \<Longrightarrow> dedup_extends st st' \<Longrightarrow> is_ule simplify st' a b sc"
  by (auto simp: is_ule_def dedup_extends_def split: prod.splits)

lemma is_eq_extends:
  "is_eq m simplify st p sc \<Longrightarrow> dedup_extends st st' \<Longrightarrow> is_eq m simplify st' p sc"
  unfolding is_eq_def by (rule is_ule_extends)

lemma is_ult_extends:
  "is_ult simplify st a b sc \<Longrightarrow> dedup_extends st st' \<Longrightarrow> is_ult simplify st' a b sc"
  unfolding is_ult_def by (rule is_ule_extends)

lemma is_constraint_extends:
  "is_constraint st k pos sc \<Longrightarrow> dedup_extends st st' \<Longrightarrow> is_constraint st' k pos sc"
  by (auto simp: is_constraint_def dedup_extends_def)

lemma is_lit_frame [simp]:
  "is_ule simplify (add_clause cs rd st) a b sc = is_ule simplify st a b sc"
  "is_eq m simplify (add_clause cs rd st) p sc = is_eq m simplify st p sc"
  "is_ult simplify (add_clause cs rd st) a b sc = is_ult simplify st a b sc"
  "is_constraint (add_clause cs rd st) k pos sc = is_constraint st k pos sc"
  by (simp_all add: is_ule_def is_eq_def is_ult_def is_constraint_def add_clause_def)

lemma dedup_extends_inv: "dedup_extends st st' \<Longrightarrow> dedup_inv st'"
  by (simp add: dedup_extends_def)

text \<open>The miss path of \<^verbatim>\<open>quot_rem\<close> with the clauses it emits.\<close>

lemma quot_rem_miss_clauses:
  assumes inv: "dedup_inv st"
    and path: "\<not> is_zero m b" "\<not> is_one m b" "\<not> (is_val m a \<and> is_val m b)"
    and miss: "quot_rem_expr st (a, b) = None"
  defines "q \<equiv> mk_var m (length (pvar_sizes st))"
  defines "r \<equiv> mk_var m (Suc (length (pvar_sizes st)))"
  shows "\<exists>st1 c1 c2 c3 c_eq c4 c5.
           quot_rem m simplify a b st = ((q, r), st1) \<and>
           added_clauses st1 = added_clauses st @
             [([c1], False), ([neg_sc c2], False), ([c3], False),
              ([c_eq, c4], False), ([neg_sc c_eq, c5], False)] \<and>
           is_eq m simplify st1 (psub m (padd m (pmul m b q) r) a) c1 \<and>
           is_constraint st1 (umul_ovfl_constraint b q) True c2 \<and>
           is_ule simplify st1 (pmul m b q) (psub m (pneg m r) (mk_val m 1)) c3 \<and>
           is_eq m simplify st1 b c_eq \<and>
           is_ult simplify st1 r b c4 \<and>
           is_eq m simplify st1 (padd m q (mk_val m 1)) c5 \<and>
           dedup_extends st st1"
proof -
  define n where "n = length (pvar_sizes st)"
  define sz where "sz = power_of_2 m"
  have q: "q = mk_var m n" and r: "r = mk_var m (Suc n)" by (simp_all add: q_def r_def n_def)
  have nv: "(is_val m a \<and> is_val m b) = False" using path(3) by simp
  define st1 where "st1 = st\<lparr>pvar_sizes := pvar_sizes st @ [sz]\<rparr>"
  define st2 where "st2 = st1\<lparr>pvar_sizes := pvar_sizes st1 @ [sz]\<rparr>"
  define st3 where "st3 = st2\<lparr>quot_rem_expr := (quot_rem_expr st2)((a, b) \<mapsto> (n, Suc n))\<rparr>"
  have av1: "add_var sz st = (n, st1)" by (simp add: add_var_def n_def st1_def)
  have av2: "add_var sz st1 = (Suc n, st2)" by (simp add: add_var_def n_def st1_def st2_def)
  obtain c1 st4 where e4: "eq m simplify (psub m (padd m (pmul m b q) r) a) st3 = (c1, st4)"
    by (cases "eq m simplify (psub m (padd m (pmul m b q) r) a) st3") auto
  define st5 where "st5 = add_clause [c1] False st4"
  obtain c2 st6 where e6: "umul_ovfl b q st5 = (c2, st6)"
    by (cases "umul_ovfl b q st5") auto
  define st7 where "st7 = add_clause [neg_sc c2] False st6"
  obtain c3 st8 where e8: "ule simplify (pmul m b q) (psub m (pneg m r) (mk_val m 1)) st7 = (c3, st8)"
    by (cases "ule simplify (pmul m b q) (psub m (pneg m r) (mk_val m 1)) st7") auto
  define st9 where "st9 = add_clause [c3] False st8"
  obtain c_eq st10 where e10: "eq m simplify b st9 = (c_eq, st10)"
    by (cases "eq m simplify b st9") auto
  obtain c4 st11 where e11: "ult simplify r b st10 = (c4, st11)"
    by (cases "ult simplify r b st10") auto
  define st12 where "st12 = add_clause [c_eq, c4] False st11"
  obtain c5 st13 where e13: "eq m simplify (padd m q (mk_val m 1)) st12 = (c5, st13)"
    by (cases "eq m simplify (padd m q (mk_val m 1)) st12") auto
  define st14 where "st14 = add_clause [neg_sc c_eq, c5] False st13"
  have res: "quot_rem m simplify a b st = ((q, r), st14)"
    using path(1,2) miss
    by (simp add: quot_rem_def nv Let_def av1 av2 e4 e6 e8 e10 e11 e13
        sz_def [symmetric] q [symmetric] r [symmetric] st3_def [symmetric]
        st5_def [symmetric] st7_def [symmetric] st9_def [symmetric] st12_def [symmetric]
        st14_def [symmetric])
  have i3: "dedup_inv st3" using inv by (simp add: st3_def st2_def st1_def)
  have x03: "dedup_extends st st3"
    using dedup_extends_refl [OF inv] by (simp add: st3_def st2_def st1_def)
  have x4: "dedup_extends st3 st4" using eq_extends [OF i3 e4] .
  have i5: "dedup_inv st5" using dedup_extends_inv [OF x4] by (simp add: st5_def)
  have x6: "dedup_extends st4 st6" using umul_ovfl_extends [OF i5 e6] by (simp add: st5_def)
  have i7: "dedup_inv st7" using dedup_extends_inv [OF x6] by (simp add: st7_def)
  have x8: "dedup_extends st6 st8" using ule_extends [OF i7 e8] by (simp add: st7_def)
  have i9: "dedup_inv st9" using dedup_extends_inv [OF x8] by (simp add: st9_def)
  have x10: "dedup_extends st8 st10" using eq_extends [OF i9 e10] by (simp add: st9_def)
  have i10: "dedup_inv st10" using dedup_extends_inv [OF x10] .
  have x11: "dedup_extends st10 st11" using ult_extends [OF i10 e11] .
  have i12: "dedup_inv st12" using dedup_extends_inv [OF x11] by (simp add: st12_def)
  have x13: "dedup_extends st11 st13" using eq_extends [OF i12 e13] by (simp add: st12_def)
  have y11: "dedup_extends st11 st14" using x13 by (simp add: st14_def)
  have y10: "dedup_extends st10 st14" using dedup_extends_trans [OF x11 y11] .
  have y8: "dedup_extends st8 st14" using dedup_extends_trans [OF x10 y10] .
  have y6: "dedup_extends st6 st14" using dedup_extends_trans [OF x8 y8] .
  have y4: "dedup_extends st4 st14" using dedup_extends_trans [OF x6 y6] .
  have y3: "dedup_extends st3 st14" using dedup_extends_trans [OF x4 y4] .
  have y0: "dedup_extends st st14" using dedup_extends_trans [OF x03 y3] .
  have l1: "is_eq m simplify st14 (psub m (padd m (pmul m b q) r) a) c1"
    using is_eq_extends [OF eq_is_eq [OF i3 e4] y4] .
  have l2: "is_constraint st14 (umul_ovfl_constraint b q) True c2"
    using is_constraint_extends [OF umul_ovfl_is_constraint [OF i5 e6] y6] .
  have l3: "is_ule simplify st14 (pmul m b q) (psub m (pneg m r) (mk_val m 1)) c3"
    using is_ule_extends [OF ule_is_ule [OF i7 e8] y8] .
  have l4: "is_eq m simplify st14 b c_eq"
    using is_eq_extends [OF eq_is_eq [OF i9 e10] y10] .
  have l5: "is_ult simplify st14 r b c4"
    using is_ult_extends [OF ult_is_ult [OF i10 e11] y11] .
  have l6: "is_eq m simplify st14 (padd m q (mk_val m 1)) c5"
    using eq_is_eq [OF i12 e13] by (simp add: st14_def)
  note f4 = eq_frame [OF e4] and f6 = umul_ovfl_frame [OF e6] and f8 = ule_frame [OF e8]
    and f10 = eq_frame [OF e10] and f11 = ult_frame [OF e11] and f13 = eq_frame [OF e13]
  have ac: "added_clauses st14 = added_clauses st @
      [([c1], False), ([neg_sc c2], False), ([c3], False), ([c_eq, c4], False), ([neg_sc c_eq, c5], False)]"
    using f4 f6 f8 f10 f11 f13
    by (simp add: st14_def st12_def st9_def st7_def st5_def add_clause_frame st3_def st2_def st1_def)
  show ?thesis
    using res ac l1 l2 l3 l4 l5 l6 y0 by blast
qed

lemma quot_rem_extends:
  assumes inv: "dedup_inv st"
  shows "dedup_extends st (snd (quot_rem m simplify a b st))"
proof (cases "is_zero m b \<or> is_one m b \<or> (is_val m a \<and> is_val m b)")
  case True
  then have "snd (quot_rem m simplify a b st) = st"
    by (auto simp: quot_rem_def Let_def split: prod.splits)
  then show ?thesis using dedup_extends_refl [OF inv] by simp
next
  case False
  then have path: "\<not> is_zero m b" "\<not> is_one m b" "\<not> (is_val m a \<and> is_val m b)" by auto
  show ?thesis
  proof (cases "quot_rem_expr st (a, b)")
    case (Some w)
    then show ?thesis
      using quot_rem_hit [OF path, of st "fst w" "snd w" simplify] dedup_extends_refl [OF inv] by simp
  next
    case None
    from quot_rem_miss_clauses [OF inv path None, of simplify]
    obtain st1 where "quot_rem m simplify a b st =
        ((mk_var m (length (pvar_sizes st)), mk_var m (Suc (length (pvar_sizes st)))), st1)"
      "dedup_extends st st1" by blast
    then show ?thesis by simp
  qed
qed

lemma mk_op_term_miss_clause:
  fixes m :: "'p pdd_manager" and st :: "'p manager_state"
  assumes inv: "dedup_inv st" and miss: "op_constraint_expr st (op, p, q) = None"
  defines "r \<equiv> mk_var m (length (pvar_sizes st))"
  shows "\<exists>st1 c. mk_op_term m op p q st = (r, st1) \<and>
           added_clauses st1 = added_clauses st @ [([c], False)] \<and>
           is_constraint st1 (op_constraint op p q r) True c \<and>
           dedup_extends st st1"
proof -
  define n where "n = length (pvar_sizes st)"
  have r: "r = mk_var m n" by (simp add: r_def n_def)
  define st1 where "st1 = st\<lparr>pvar_sizes := pvar_sizes st @ [power_of_2 m]\<rparr>"
  define st2 where "st2 = st1\<lparr>op_constraint_expr := (op_constraint_expr st1)((op, p, q) \<mapsto> n)\<rparr>"
  have av: "add_var (power_of_2 m) st = (n, st1)" by (simp add: add_var_def n_def st1_def)
  obtain c st3 where e: "mk_op_constraint op p q r st2 = (c, st3)"
    by (cases "mk_op_constraint op p q r st2") auto
  have res: "mk_op_term m op p q st = (r, add_clause [c] False st3)"
    using miss by (simp add: mk_op_term_def Let_def av e r [symmetric] st2_def [symmetric])
  have i2: "dedup_inv st2" using inv by (simp add: st2_def st1_def)
  have x02: "dedup_extends st st2"
    using dedup_extends_refl [OF inv] by (simp add: st2_def st1_def)
  have x3: "dedup_extends st2 st3" using mk_op_constraint_extends [OF i2 e] .
  have y: "dedup_extends st (add_clause [c] False st3)"
    using dedup_extends_trans [OF x02 x3] by simp
  have l: "is_constraint (add_clause [c] False st3) (op_constraint op p q r) True c"
    using mk_op_constraint_is_constraint [OF i2 e] by simp
  have ac: "added_clauses (add_clause [c] False st3) = added_clauses st @ [([c], False)]"
    using mk_op_constraint_frame [OF e] by (simp add: add_clause_frame st2_def st1_def)
  show ?thesis using res y l ac by blast
qed

lemma mk_op_term_extends:
  assumes inv: "dedup_inv st"
  shows "dedup_extends st (snd (mk_op_term m op p q st))"
proof (cases "op_constraint_expr st (op, p, q)")
  case (Some v)
  then show ?thesis using mk_op_term_hit [of st op p q v m] dedup_extends_refl [OF inv] by simp
next
  case None
  from mk_op_term_miss_clause [OF inv None, of m]
  obtain st1 where "mk_op_term m op p q st = (mk_var m (length (pvar_sizes st)), st1)"
    "dedup_extends st st1" by blast
  then show ?thesis by simp
qed

lemma run_call_extends:
  assumes inv: "dedup_inv st"
  shows "dedup_extends st (run_call m simplify call st)"
proof (cases call)
  case (Call_ule a b)
  then show ?thesis using ule_extends [OF inv, of simplify a b] by (cases "ule simplify a b st") auto
next
  case (Call_eq p)
  then show ?thesis using eq_extends [OF inv, of m simplify p] by (cases "eq m simplify p st") auto
next
  case (Call_ult a b)
  then show ?thesis using ult_extends [OF inv, of simplify a b] by (cases "ult simplify a b st") auto
next
  case (Call_bit p i)
  then show ?thesis
    using ule_extends [OF inv, of simplify]
    by (cases "bit m simplify p i st") (auto simp: bit_def Let_def)
next
  case (Call_umul_ovfl a b)
  then show ?thesis using umul_ovfl_extends [OF inv, of a b] by (cases "umul_ovfl a b st") auto
next
  case (Call_smul_ovfl a b)
  then show ?thesis using smul_ovfl_extends [OF inv, of a b] by (cases "smul_ovfl a b st") auto
next
  case (Call_smul_udfl a b)
  then show ?thesis using smul_udfl_extends [OF inv, of a b] by (cases "smul_udfl a b st") auto
next
  case (Call_mk_op_constraint op p q r)
  then show ?thesis
    using mk_op_constraint_extends [OF inv, of op p q r] by (cases "mk_op_constraint op p q r st") auto
next
  case (Call_sle a b)
  then show ?thesis
    using ule_extends [OF inv, of simplify]
    by (cases "sle m simplify a b st") (auto simp: sle_def Let_def)
next
  case (Call_slt a b)
  then show ?thesis
    using ult_extends [OF inv, of simplify]
    by (cases "slt m simplify a b st") (auto simp: slt_def Let_def)
next
  case (Call_quot_rem a b)
  then show ?thesis using quot_rem_extends [OF inv] by simp
next
  case (Call_mk_op_term op p q)
  then show ?thesis using mk_op_term_extends [OF inv] by simp
qed

lemma run_calls_extends:
  "dedup_inv st \<Longrightarrow> dedup_extends st (run_calls m simplify calls st)"
proof (induction calls arbitrary: st)
  case Nil
  then show ?case by (simp add: run_calls_def dedup_extends_refl)
next
  case (Cons call calls)
  have 1: "dedup_extends st (run_call m simplify call st)" using Cons.prems by (rule run_call_extends)
  have 2: "dedup_extends (run_call m simplify call st) (run_calls m simplify calls (run_call m simplify call st))"
    using Cons.IH [OF dedup_extends_inv [OF 1]] .
  show ?case using dedup_extends_trans [OF 1 2] by (simp add: run_calls_def)
qed

lemma ule_first_call:
  assumes inv: "dedup_inv st" and s: "simplify True a b = (pos, l, r)"
    and u: "ule simplify a b st = (sc1, st1)"
  shows "snd sc1 = pos"
    and "c_payload st1 (fst sc1) = Some (ule_constraint l r)"
    and "c_bvar st1 (fst sc1) \<noteq> None"
    and "\<forall>c. c_payload st c = Some (ule_constraint l r) \<longrightarrow>
           fst sc1 = c \<and> bvars_size st1 = bvars_size st \<and> c_payload st1 = c_payload st \<and>
           m_constraints st1 = m_constraints st"
    and "(\<forall>c. c_payload st c \<noteq> Some (ule_constraint l r)) \<longrightarrow>
           bvars_size st1 = Suc (bvars_size st) \<and> c_payload st (fst sc1) = None"
    and "bvars_size st1 \<le> Suc (bvars_size st)"
    and "ran (c_payload st1) = insert (ule_constraint l r) (ran (c_payload st))"
    and "dedup_extends st st1"
proof -
  let ?k = "ule_constraint l r"
  let ?r = "dedup (fst (alloc ?k st)) (snd (alloc ?k st))"
  have e: "sc1 = (fst ?r, pos)" "st1 = snd ?r"
    using u by (simp_all add: ule_unfold s)
  note o = dedup_alloc_once [OF inv, of ?k]
  show "snd sc1 = pos" by (simp add: e)
  show "c_payload st1 (fst sc1) = Some ?k" using o(2) by (simp add: e)
  show "c_bvar st1 (fst sc1) \<noteq> None" using o(3) by (simp add: e)
  show "\<forall>c. c_payload st c = Some ?k \<longrightarrow>
           fst sc1 = c \<and> bvars_size st1 = bvars_size st \<and> c_payload st1 = c_payload st \<and>
           m_constraints st1 = m_constraints st"
    using dedup_alloc_again(1,3,4,5) [OF inv, of _ ?k] by (simp add: e)
  show "(\<forall>c. c_payload st c \<noteq> Some ?k) \<longrightarrow>
           bvars_size st1 = Suc (bvars_size st) \<and> c_payload st (fst sc1) = None"
    using dedup_alloc_miss_facts [OF inv, of ?k] by (simp add: e)
  show "bvars_size st1 \<le> Suc (bvars_size st)" using o(4) by (simp add: e)
  show "ran (c_payload st1) = insert ?k (ran (c_payload st))"
    using dedup_alloc_ran [OF inv, of ?k] by (simp add: e)
  show "dedup_extends st st1" using dedup_alloc_extends [OF inv, of ?k] by (simp add: e)
qed

lemma ule_later_call:
  assumes inv: "dedup_inv st" and s: "simplify True a b = (pos, l, r)"
    and u1: "ule simplify a b st = (sc1, st1)"
    and u2: "ule simplify a b (run_calls m simplify calls st1) = (sc2, st2)"
  shows "sc2 = sc1"
    and "c_payload st2 (fst sc2) = Some (ule_constraint l r)"
    and "c_bvar st2 (fst sc2) = c_bvar st1 (fst sc1)"
    and "bvars_size st2 = bvars_size (run_calls m simplify calls st1)"
    and "c_payload st2 = c_payload (run_calls m simplify calls st1)"
    and "m_constraints st2 = m_constraints (run_calls m simplify calls st1)"
    and "dedup_inv st2"
proof -
  let ?k = "ule_constraint l r"
  let ?st' = "run_calls m simplify calls st1"
  note f = ule_first_call [OF inv s u1]
  have i1: "dedup_inv st1" using f(8) by (rule dedup_extends_inv)
  have x: "dedup_extends st1 ?st'" using i1 by (rule run_calls_extends)
  have i': "dedup_inv ?st'" using x by (rule dedup_extends_inv)
  have p: "c_payload ?st' (fst sc1) = Some ?k" and b: "c_bvar ?st' (fst sc1) = c_bvar st1 (fst sc1)"
    using x f(2) by (simp_all add: dedup_extends_def)
  note g = ule_first_call [OF i' s u2]
  have h: "fst sc2 = fst sc1 \<and> bvars_size st2 = bvars_size ?st' \<and> c_payload st2 = c_payload ?st' \<and>
           m_constraints st2 = m_constraints ?st'"
    using g(4) p by blast
  show "sc2 = sc1" using h g(1) f(1) by (simp add: prod_eq_iff)
  show "c_payload st2 (fst sc2) = Some ?k" using g(2) .
  have "c_bvar st2 (fst sc1) = c_bvar ?st' (fst sc1)"
    using g(8) p by (simp add: dedup_extends_def)
  then show "c_bvar st2 (fst sc2) = c_bvar st1 (fst sc1)" using h b by simp
  show "bvars_size st2 = bvars_size ?st'" "c_payload st2 = c_payload ?st'"
    "m_constraints st2 = m_constraints ?st'" using h by simp_all
  show "dedup_inv st2" using g(8) by (rule dedup_extends_inv)
qed

text \<open>
  Claim C2. From a state that satisfies the table invariant, \<^verbatim>\<open>ule(a, b)\<close> returns the
  constraint whose payload is \<^verbatim>\<open>ule_constraint\<close> of the simplified operands, with the
  simplified polarity and with a boolean variable. If a constraint with that payload is
  allocated, it is the one returned and no boolean variable is made; if none is, one
  boolean variable is made. The payloads in use after the call are those before and this
  one. After any sequence of builder calls, with any operands, a second \<^verbatim>\<open>ule(a, b)\<close>
  returns the same constraint and polarity, with the boolean variable it had, and makes no
  boolean variable. Over any sequence of builder calls every allocated constraint keeps
  its payload and its boolean variable, the boolean variables made are as many as the
  payloads that came into use, and no two allocated constraints have the same payload.
\<close>

theorem ule_dedup_canonical:
  assumes "dedup_inv st"
  shows
    "(case simplify True a b of
        (is_positive, lhs, rhs) \<Rightarrow>
          (case ule simplify a b st of
             (sc1, st1) \<Rightarrow>
               snd sc1 = is_positive \<and>
               c_payload st1 (fst sc1) = Some (ule_constraint lhs rhs) \<and>
               c_bvar st1 (fst sc1) \<noteq> None \<and>
               (\<forall>c. c_payload st c = Some (ule_constraint lhs rhs) \<longrightarrow>
                  fst sc1 = c \<and> bvars_size st1 = bvars_size st \<and> c_payload st1 = c_payload st \<and>
                  m_constraints st1 = m_constraints st) \<and>
               ((\<forall>c. c_payload st c \<noteq> Some (ule_constraint lhs rhs)) \<longrightarrow>
                  bvars_size st1 = Suc (bvars_size st) \<and> c_payload st (fst sc1) = None) \<and>
               bvars_size st1 \<le> Suc (bvars_size st) \<and>
               ran (c_payload st1) = insert (ule_constraint lhs rhs) (ran (c_payload st)) \<and>
               dedup_extends st st1 \<and> one_instance_per_key st1 \<and>
               (case ule simplify a b (run_calls m simplify calls st1) of
                  (sc2, st2) \<Rightarrow>
                    sc2 = sc1 \<and>
                    c_payload st2 (fst sc2) = Some (ule_constraint lhs rhs) \<and>
                    c_bvar st2 (fst sc2) = c_bvar st1 (fst sc1) \<and>
                    bvars_size st2 = bvars_size (run_calls m simplify calls st1) \<and>
                    c_payload st2 = c_payload (run_calls m simplify calls st1) \<and>
                    m_constraints st2 = m_constraints (run_calls m simplify calls st1) \<and>
                    dedup_inv st2 \<and> one_instance_per_key st2))) \<and>
     dedup_extends st (run_calls m simplify calls st) \<and>
     ran (c_payload st) \<subseteq> ran (c_payload (run_calls m simplify calls st)) \<and>
     bvars_size (run_calls m simplify calls st) + card (ran (c_payload st)) =
       bvars_size st + card (ran (c_payload (run_calls m simplify calls st))) \<and>
     one_instance_per_key st \<and>
     one_instance_per_key (run_calls m simplify calls st)"
proof -
  obtain pos l r where s: "simplify True a b = (pos, l, r)" by (cases "simplify True a b") auto
  obtain sc1 st1 where u1: "ule simplify a b st = (sc1, st1)" by (cases "ule simplify a b st") auto
  obtain sc2 st2 where u2: "ule simplify a b (run_calls m simplify calls st1) = (sc2, st2)"
    by (cases "ule simplify a b (run_calls m simplify calls st1)") auto
  note f = ule_first_call [OF assms s u1]
  note g = ule_later_call [OF assms s u1 u2]
  have o1: "one_instance_per_key st1"
    using f(8) by (intro dedup_inv_one_instance dedup_extends_inv)
  have o2: "one_instance_per_key st2" using g(7) by (rule dedup_inv_one_instance)
  have x: "dedup_extends st (run_calls m simplify calls st)" using assms by (rule run_calls_extends)
  have part1: "case simplify True a b of
        (is_positive, lhs, rhs) \<Rightarrow>
          (case ule simplify a b st of
             (sc1, st1) \<Rightarrow>
               snd sc1 = is_positive \<and>
               c_payload st1 (fst sc1) = Some (ule_constraint lhs rhs) \<and>
               c_bvar st1 (fst sc1) \<noteq> None \<and>
               (\<forall>c. c_payload st c = Some (ule_constraint lhs rhs) \<longrightarrow>
                  fst sc1 = c \<and> bvars_size st1 = bvars_size st \<and> c_payload st1 = c_payload st \<and>
                  m_constraints st1 = m_constraints st) \<and>
               ((\<forall>c. c_payload st c \<noteq> Some (ule_constraint lhs rhs)) \<longrightarrow>
                  bvars_size st1 = Suc (bvars_size st) \<and> c_payload st (fst sc1) = None) \<and>
               bvars_size st1 \<le> Suc (bvars_size st) \<and>
               ran (c_payload st1) = insert (ule_constraint lhs rhs) (ran (c_payload st)) \<and>
               dedup_extends st st1 \<and> one_instance_per_key st1 \<and>
               (case ule simplify a b (run_calls m simplify calls st1) of
                  (sc2, st2) \<Rightarrow>
                    sc2 = sc1 \<and>
                    c_payload st2 (fst sc2) = Some (ule_constraint lhs rhs) \<and>
                    c_bvar st2 (fst sc2) = c_bvar st1 (fst sc1) \<and>
                    bvars_size st2 = bvars_size (run_calls m simplify calls st1) \<and>
                    c_payload st2 = c_payload (run_calls m simplify calls st1) \<and>
                    m_constraints st2 = m_constraints (run_calls m simplify calls st1) \<and>
                    dedup_inv st2 \<and> one_instance_per_key st2))"
    unfolding s u1 prod.case u2
    using f g o1 o2 by (intro conjI) 
  show ?thesis
    using part1 x dedup_extends_ran [OF x] dedup_extends_card [OF assms x]
      dedup_inv_one_instance [OF assms] dedup_inv_one_instance [OF dedup_extends_inv [OF x]]
    by (intro conjI)
qed

theorem ule_dedup_canonical_witness:
  "dedup_inv ex_vars_state \<and>
   fst (ule ex_simplify (PVar 0) (PVar 2) ex_vars_state) = (0, True) \<and>
   bvars_size (snd (ule ex_simplify (PVar 0) (PVar 2) ex_vars_state)) = 1 \<and>
   bvars_size (run_calls ex_mgr ex_simplify [Call_ule (PVar 2) (PVar 0)]
                 (snd (ule ex_simplify (PVar 0) (PVar 2) ex_vars_state))) = 2 \<and>
   fst (ule ex_simplify (PVar 0) (PVar 2)
          (run_calls ex_mgr ex_simplify [Call_ule (PVar 2) (PVar 0)]
             (snd (ule ex_simplify (PVar 0) (PVar 2) ex_vars_state)))) = (0, True) \<and>
   bvars_size (snd (ule ex_simplify (PVar 0) (PVar 2)
          (run_calls ex_mgr ex_simplify [Call_ule (PVar 2) (PVar 0)]
             (snd (ule ex_simplify (PVar 0) (PVar 2) ex_vars_state))))) = 2"
proof -
  let ?st1 = "snd (ule ex_simplify (PVar 0) (PVar 2) ex_vars_state)"
  let ?st' = "run_calls ex_mgr ex_simplify [Call_ule (PVar 2) (PVar 0)] ?st1"
  have i: "dedup_inv ex_vars_state" by (simp add: ex_vars_state_def init_state_inv)
  have e: "ule ex_simplify (PVar 0) (PVar 2) ex_vars_state =
      ((0, True),
       ex_vars_state\<lparr>c_payload := [0 \<mapsto> ule_constraint (PVar 0) (PVar 2)],
                  c_bvar := [0 \<mapsto> 0], next_cref := 1, bvars_size := 1,
                  m_bv2constraint := [0 \<mapsto> 0], dedup_constraints := [0], m_constraints := [0]\<rparr>)"
    by (simp add: ule_def ex_simplify_def alloc_def dedup_def dedup_find_def ensure_bvar_def
        has_bvar_def new_var_def assign_bv2c_def store_constraint_def ex_vars_state_def
        init_state_def Let_def)
  have f1: "fst (ule ex_simplify (PVar 0) (PVar 2) ex_vars_state) = (0, True)"
    and f2: "bvars_size ?st1 = 1"
    by (simp_all add: e)
  have f3: "bvars_size ?st' = 2"
    by (simp add: e run_calls_def)
       (simp add: ule_def ex_simplify_def alloc_def dedup_def dedup_find_def ensure_bvar_def
        has_bvar_def new_var_def assign_bv2c_def store_constraint_def Let_def)
  note T = ule_dedup_canonical [OF i, where simplify = ex_simplify and a = "PVar 0" and b = "PVar 2"
      and m = ex_mgr and calls = "[Call_ule (PVar 2) (PVar 0)]", THEN conjunct1]
  have f4: "fst (ule ex_simplify (PVar 0) (PVar 2) ?st') = fst (ule ex_simplify (PVar 0) (PVar 2) ex_vars_state)"
    and f5: "bvars_size (snd (ule ex_simplify (PVar 0) (PVar 2) ?st')) = bvars_size ?st'"
    using T by (simp_all add: case_prod_beta)
  show ?thesis
    using i f1 f2 f3 f4 f5 by simp
qed



text \<open>
  Claim C7. On the non-constant path, the first \<^verbatim>\<open>quot_rem(a, b)\<close> for a pair not in the
  table makes two fresh variables \<open>q\<close> and \<open>r\<close> of width K, records them under
  \<open>(a, b)\<close> and emits exactly the five defining clauses, in this order:
  \<open>eq(b*q + r - a)\<close>; the negation of \<open>umul_ovfl(b, q)\<close>; \<open>ule(b*q, -r-1)\<close>;
  \<open>eq(b)\<close> or \<open>ult(r, b)\<close>; the negation of \<open>eq(b)\<close> or \<open>eq(q + 1)\<close>. A call that finds
  \<open>(a, b)\<close> in the table returns the recorded variables and changes nothing, so the call
  right after the first one does so. \<^verbatim>\<open>mk_op_term\<close> does the same with one variable
  \<open>r\<close> and the one clause of the operation constraint on \<open>(p, q, r)\<close>, under the key
  (operation, operands). Entries of either table survive every later call of the two
  functions. The literals of the clauses are read in a state that satisfies the table
  invariant.
\<close>

theorem operation_result_memoization:
  "(dedup_inv st \<and> \<not> is_zero m b \<and> \<not> is_one m b \<and> \<not> (is_val m a \<and> is_val m b) \<and>
    quot_rem_expr st (a, b) = None \<longrightarrow>
      (let q = mk_var m (length (pvar_sizes st));
           r = mk_var m (Suc (length (pvar_sizes st)))
       in \<exists>st1 c1 c2 c3 c_eq c4 c5.
            quot_rem m simplify a b st = ((q, r), st1) \<and>
            added_clauses st1 = added_clauses st @
              [([c1], False), ([neg_sc c2], False), ([c3], False),
               ([c_eq, c4], False), ([neg_sc c_eq, c5], False)] \<and>
            is_eq m simplify st1 (psub m (padd m (pmul m b q) r) a) c1 \<and>
            is_constraint st1 (umul_ovfl_constraint b q) True c2 \<and>
            is_ule simplify st1 (pmul m b q) (psub m (pneg m r) (mk_val m 1)) c3 \<and>
            is_eq m simplify st1 b c_eq \<and>
            is_ult simplify st1 r b c4 \<and>
            is_eq m simplify st1 (padd m q (mk_val m 1)) c5)) \<and>
   (dedup_inv st \<and> op_constraint_expr st (op, p, q) = None \<longrightarrow>
      (let r = mk_var m (length (pvar_sizes st))
       in \<exists>st1 c.
            mk_op_term m op p q st = (r, st1) \<and>
            added_clauses st1 = added_clauses st @ [([c], False)] \<and>
            is_constraint st1 (op_constraint op p q r) True c)) \<and>
   ((\<not> is_zero m b \<and> \<not> is_one m b \<and> \<not> (is_val m a \<and> is_val m b) \<and> quot_rem_expr st (a, b) = None \<longrightarrow>
      (case quot_rem m simplify a b st of
         (res1, st1) \<Rightarrow>
           res1 = (mk_var m (length (pvar_sizes st)), mk_var m (Suc (length (pvar_sizes st)))) \<and>
           pvar_sizes st1 = pvar_sizes st @ [power_of_2 m, power_of_2 m] \<and>
           quot_rem_expr st1 =
             (quot_rem_expr st)((a, b) \<mapsto> (length (pvar_sizes st), Suc (length (pvar_sizes st)))) \<and>
           length (added_clauses st1) = length (added_clauses st) + 5 \<and>
           take (length (added_clauses st)) (added_clauses st1) = added_clauses st \<and>
           quot_rem m simplify a b st1 = (res1, st1))) \<and>
   (\<not> is_zero m b \<and> \<not> is_one m b \<and> \<not> (is_val m a \<and> is_val m b) \<longrightarrow>
      (\<forall>vq vr. quot_rem_expr st (a, b) = Some (vq, vr) \<longrightarrow>
         quot_rem m simplify a b st = ((mk_var m vq, mk_var m vr), st))) \<and>
   (op_constraint_expr st (op, p, q) = None \<longrightarrow>
      (case mk_op_term m op p q st of
         (r1, st1) \<Rightarrow>
           r1 = mk_var m (length (pvar_sizes st)) \<and>
           pvar_sizes st1 = pvar_sizes st @ [power_of_2 m] \<and>
           op_constraint_expr st1 = (op_constraint_expr st)((op, p, q) \<mapsto> length (pvar_sizes st)) \<and>
           length (added_clauses st1) = length (added_clauses st) + 1 \<and>
           take (length (added_clauses st)) (added_clauses st1) = added_clauses st \<and>
           mk_op_term m op p q st1 = (r1, st1))) \<and>
   (\<forall>v. op_constraint_expr st (op, p, q) = Some v \<longrightarrow> mk_op_term m op p q st = (mk_var m v, st)) \<and>
   (\<forall>k v. quot_rem_expr st k = Some v \<longrightarrow>
      quot_rem_expr (snd (quot_rem m simplify a b st)) k = Some v \<and>
      quot_rem_expr (snd (mk_op_term m op p q st)) k = Some v) \<and>
   (\<forall>k v. op_constraint_expr st k = Some v \<longrightarrow>
      op_constraint_expr (snd (quot_rem m simplify a b st)) k = Some v \<and>
      op_constraint_expr (snd (mk_op_term m op p q st)) k = Some v))"
proof -
  have A: "dedup_inv st \<and> \<not> is_zero m b \<and> \<not> is_one m b \<and> \<not> (is_val m a \<and> is_val m b) \<and>
    quot_rem_expr st (a, b) = None \<longrightarrow>
      (let q = mk_var m (length (pvar_sizes st));
           r = mk_var m (Suc (length (pvar_sizes st)))
       in \<exists>st1 c1 c2 c3 c_eq c4 c5.
            quot_rem m simplify a b st = ((q, r), st1) \<and>
            added_clauses st1 = added_clauses st @
              [([c1], False), ([neg_sc c2], False), ([c3], False),
               ([c_eq, c4], False), ([neg_sc c_eq, c5], False)] \<and>
            is_eq m simplify st1 (psub m (padd m (pmul m b q) r) a) c1 \<and>
            is_constraint st1 (umul_ovfl_constraint b q) True c2 \<and>
            is_ule simplify st1 (pmul m b q) (psub m (pneg m r) (mk_val m 1)) c3 \<and>
            is_eq m simplify st1 b c_eq \<and>
            is_ult simplify st1 r b c4 \<and>
            is_eq m simplify st1 (padd m q (mk_val m 1)) c5)"
  proof (intro impI)
    assume h: "dedup_inv st \<and> \<not> is_zero m b \<and> \<not> is_one m b \<and> \<not> (is_val m a \<and> is_val m b) \<and>
      quot_rem_expr st (a, b) = None"
    then have inv: "dedup_inv st" and path: "\<not> is_zero m b" "\<not> is_one m b" "\<not> (is_val m a \<and> is_val m b)"
      and miss: "quot_rem_expr st (a, b) = None" by auto
    from quot_rem_miss_clauses [OF inv path miss, of simplify]
    show "let q = mk_var m (length (pvar_sizes st));
           r = mk_var m (Suc (length (pvar_sizes st)))
       in \<exists>st1 c1 c2 c3 c_eq c4 c5.
            quot_rem m simplify a b st = ((q, r), st1) \<and>
            added_clauses st1 = added_clauses st @
              [([c1], False), ([neg_sc c2], False), ([c3], False),
               ([c_eq, c4], False), ([neg_sc c_eq, c5], False)] \<and>
            is_eq m simplify st1 (psub m (padd m (pmul m b q) r) a) c1 \<and>
            is_constraint st1 (umul_ovfl_constraint b q) True c2 \<and>
            is_ule simplify st1 (pmul m b q) (psub m (pneg m r) (mk_val m 1)) c3 \<and>
            is_eq m simplify st1 b c_eq \<and>
            is_ult simplify st1 r b c4 \<and>
            is_eq m simplify st1 (padd m q (mk_val m 1)) c5"
      unfolding Let_def by blast
  qed
  have B: "dedup_inv st \<and> op_constraint_expr st (op, p, q) = None \<longrightarrow>
      (let r = mk_var m (length (pvar_sizes st))
       in \<exists>st1 c.
            mk_op_term m op p q st = (r, st1) \<and>
            added_clauses st1 = added_clauses st @ [([c], False)] \<and>
            is_constraint st1 (op_constraint op p q r) True c)"
  proof (intro impI)
    assume h: "dedup_inv st \<and> op_constraint_expr st (op, p, q) = None"
    then have inv: "dedup_inv st" and miss: "op_constraint_expr st (op, p, q) = None" by auto
    from mk_op_term_miss_clause [OF inv miss, of m]
    show "let r = mk_var m (length (pvar_sizes st))
       in \<exists>st1 c.
            mk_op_term m op p q st = (r, st1) \<and>
            added_clauses st1 = added_clauses st @ [([c], False)] \<and>
            is_constraint st1 (op_constraint op p q r) True c"
      unfolding Let_def by blast
  qed
  have C: "(\<not> is_zero m b \<and> \<not> is_one m b \<and> \<not> (is_val m a \<and> is_val m b) \<and> quot_rem_expr st (a, b) = None \<longrightarrow>
      (case quot_rem m simplify a b st of
         (res1, st1) \<Rightarrow>
           res1 = (mk_var m (length (pvar_sizes st)), mk_var m (Suc (length (pvar_sizes st)))) \<and>
           pvar_sizes st1 = pvar_sizes st @ [power_of_2 m, power_of_2 m] \<and>
           quot_rem_expr st1 =
             (quot_rem_expr st)((a, b) \<mapsto> (length (pvar_sizes st), Suc (length (pvar_sizes st)))) \<and>
           length (added_clauses st1) = length (added_clauses st) + 5 \<and>
           take (length (added_clauses st)) (added_clauses st1) = added_clauses st \<and>
           quot_rem m simplify a b st1 = (res1, st1))) \<and>
   (\<not> is_zero m b \<and> \<not> is_one m b \<and> \<not> (is_val m a \<and> is_val m b) \<longrightarrow>
      (\<forall>vq vr. quot_rem_expr st (a, b) = Some (vq, vr) \<longrightarrow>
         quot_rem m simplify a b st = ((mk_var m vq, mk_var m vr), st))) \<and>
   (op_constraint_expr st (op, p, q) = None \<longrightarrow>
      (case mk_op_term m op p q st of
         (r1, st1) \<Rightarrow>
           r1 = mk_var m (length (pvar_sizes st)) \<and>
           pvar_sizes st1 = pvar_sizes st @ [power_of_2 m] \<and>
           op_constraint_expr st1 = (op_constraint_expr st)((op, p, q) \<mapsto> length (pvar_sizes st)) \<and>
           length (added_clauses st1) = length (added_clauses st) + 1 \<and>
           take (length (added_clauses st)) (added_clauses st1) = added_clauses st \<and>
           mk_op_term m op p q st1 = (r1, st1))) \<and>
   (\<forall>v. op_constraint_expr st (op, p, q) = Some v \<longrightarrow> mk_op_term m op p q st = (mk_var m v, st)) \<and>
   (\<forall>k v. quot_rem_expr st k = Some v \<longrightarrow>
      quot_rem_expr (snd (quot_rem m simplify a b st)) k = Some v \<and>
      quot_rem_expr (snd (mk_op_term m op p q st)) k = Some v) \<and>
   (\<forall>k v. op_constraint_expr st k = Some v \<longrightarrow>
      op_constraint_expr (snd (quot_rem m simplify a b st)) k = Some v \<and>
      op_constraint_expr (snd (mk_op_term m op p q st)) k = Some v)"
    by (rule memo_table_behaviour)
  show ?thesis by (rule conjI [OF A conjI [OF B C]])
qed

theorem operation_result_memoization_witness:
  "(dedup_inv ex_vars_state \<and> \<not> is_zero ex_mgr (PVar 2) \<and> \<not> is_one ex_mgr (PVar 2) \<and>
    \<not> (is_val ex_mgr (PVar 0) \<and> is_val ex_mgr (PVar 2)) \<and>
    quot_rem_expr ex_vars_state (PVar 0, PVar 2) = None) \<and>
   (dedup_inv ex_vars_state \<and> op_constraint_expr ex_vars_state (and_op, PVar 0, PVar 2) = None) \<and>
   (let q = mk_var ex_mgr (length (pvar_sizes ex_vars_state));
           r = mk_var ex_mgr (Suc (length (pvar_sizes ex_vars_state)))
       in \<exists>st1 c1 c2 c3 c_eq c4 c5.
            quot_rem ex_mgr ex_simplify (PVar 0) (PVar 2) ex_vars_state = ((q, r), st1) \<and>
            added_clauses st1 = added_clauses ex_vars_state @
              [([c1], False), ([neg_sc c2], False), ([c3], False),
               ([c_eq, c4], False), ([neg_sc c_eq, c5], False)] \<and>
            is_eq ex_mgr ex_simplify st1
              (psub ex_mgr (padd ex_mgr (pmul ex_mgr (PVar 2) q) r) (PVar 0)) c1 \<and>
            is_constraint st1 (umul_ovfl_constraint (PVar 2) q) True c2 \<and>
            is_ule ex_simplify st1 (pmul ex_mgr (PVar 2) q)
              (psub ex_mgr (pneg ex_mgr r) (mk_val ex_mgr 1)) c3 \<and>
            is_eq ex_mgr ex_simplify st1 (PVar 2) c_eq \<and>
            is_ult ex_simplify st1 r (PVar 2) c4 \<and>
            is_eq ex_mgr ex_simplify st1 (padd ex_mgr q (mk_val ex_mgr 1)) c5) \<and>
   (let r = mk_var ex_mgr (length (pvar_sizes ex_vars_state))
       in \<exists>st1 c.
            mk_op_term ex_mgr and_op (PVar 0) (PVar 2) ex_vars_state = (r, st1) \<and>
            added_clauses st1 = added_clauses ex_vars_state @ [([c], False)] \<and>
            is_constraint st1 (op_constraint and_op (PVar 0) (PVar 2) r) True c) \<and>
   fst (quot_rem ex_mgr ex_simplify (PVar 0) (PVar 2) ex_vars_state) = (PVar 3, PVar 4) \<and>
   length (added_clauses (snd (quot_rem ex_mgr ex_simplify (PVar 0) (PVar 2) ex_vars_state))) = 5 \<and>
   quot_rem ex_mgr ex_simplify (PVar 0) (PVar 2)
       (snd (quot_rem ex_mgr ex_simplify (PVar 0) (PVar 2) ex_vars_state))
     = quot_rem ex_mgr ex_simplify (PVar 0) (PVar 2) ex_vars_state \<and>
   fst (mk_op_term ex_mgr and_op (PVar 0) (PVar 2) ex_vars_state) = PVar 3 \<and>
   length (added_clauses (snd (mk_op_term ex_mgr and_op (PVar 0) (PVar 2) ex_vars_state))) = 1 \<and>
   mk_op_term ex_mgr and_op (PVar 0) (PVar 2)
       (snd (mk_op_term ex_mgr and_op (PVar 0) (PVar 2) ex_vars_state))
     = mk_op_term ex_mgr and_op (PVar 0) (PVar 2) ex_vars_state"
proof -
  have i: "dedup_inv ex_vars_state" by (simp add: ex_vars_state_def init_state_inv)
  have h: "\<not> is_zero ex_mgr (PVar 2)" "\<not> is_one ex_mgr (PVar 2)"
    "\<not> (is_val ex_mgr (PVar 0) \<and> is_val ex_mgr (PVar 2))"
    "quot_rem_expr ex_vars_state (PVar 0, PVar 2) = None"
    "op_constraint_expr ex_vars_state (and_op, PVar 0, PVar 2) = None"
    "pvar_sizes ex_vars_state = [4, 4, 4]" "added_clauses ex_vars_state = []"
    "mk_var ex_mgr = PVar"
    by (simp_all add: ex_mgr_def ex_vars_state_def init_state_def)
  have p1: "dedup_inv ex_vars_state \<and> \<not> is_zero ex_mgr (PVar 2) \<and> \<not> is_one ex_mgr (PVar 2) \<and>
    \<not> (is_val ex_mgr (PVar 0) \<and> is_val ex_mgr (PVar 2)) \<and>
    quot_rem_expr ex_vars_state (PVar 0, PVar 2) = None" using i h(1-4) by simp
  have p2: "dedup_inv ex_vars_state \<and> op_constraint_expr ex_vars_state (and_op, PVar 0, PVar 2) = None" using i h(5) by simp
  note T = operation_result_memoization
      [where m = ex_mgr and a = "PVar 0" and b = "PVar 2" and st = ex_vars_state
         and simplify = ex_simplify and op = and_op and p = "PVar 0" and q = "PVar 2"]
  have c1: "let q = mk_var ex_mgr (length (pvar_sizes ex_vars_state));
           r = mk_var ex_mgr (Suc (length (pvar_sizes ex_vars_state)))
       in \<exists>st1 c1 c2 c3 c_eq c4 c5.
            quot_rem ex_mgr ex_simplify (PVar 0) (PVar 2) ex_vars_state = ((q, r), st1) \<and>
            added_clauses st1 = added_clauses ex_vars_state @
              [([c1], False), ([neg_sc c2], False), ([c3], False),
               ([c_eq, c4], False), ([neg_sc c_eq, c5], False)] \<and>
            is_eq ex_mgr ex_simplify st1
              (psub ex_mgr (padd ex_mgr (pmul ex_mgr (PVar 2) q) r) (PVar 0)) c1 \<and>
            is_constraint st1 (umul_ovfl_constraint (PVar 2) q) True c2 \<and>
            is_ule ex_simplify st1 (pmul ex_mgr (PVar 2) q)
              (psub ex_mgr (pneg ex_mgr r) (mk_val ex_mgr 1)) c3 \<and>
            is_eq ex_mgr ex_simplify st1 (PVar 2) c_eq \<and>
            is_ult ex_simplify st1 r (PVar 2) c4 \<and>
            is_eq ex_mgr ex_simplify st1 (padd ex_mgr q (mk_val ex_mgr 1)) c5"
    using T [THEN conjunct1] p1 by (rule mp)
  have c2: "let r = mk_var ex_mgr (length (pvar_sizes ex_vars_state))
       in \<exists>st1 c.
            mk_op_term ex_mgr and_op (PVar 0) (PVar 2) ex_vars_state = (r, st1) \<and>
            added_clauses st1 = added_clauses ex_vars_state @ [([c], False)] \<and>
            is_constraint st1 (op_constraint and_op (PVar 0) (PVar 2) r) True c"
    using T [THEN conjunct2, THEN conjunct1] p2 by (rule mp)
  have n: "Suc (Suc (Suc 0)) = 3" "Suc 3 = 4" by simp_all
  have old: "fst (quot_rem ex_mgr ex_simplify (PVar 0) (PVar 2) ex_vars_state) = (PVar 3, PVar 4) \<and>
   length (added_clauses (snd (quot_rem ex_mgr ex_simplify (PVar 0) (PVar 2) ex_vars_state))) = 5 \<and>
   quot_rem ex_mgr ex_simplify (PVar 0) (PVar 2)
       (snd (quot_rem ex_mgr ex_simplify (PVar 0) (PVar 2) ex_vars_state))
     = quot_rem ex_mgr ex_simplify (PVar 0) (PVar 2) ex_vars_state \<and>
   fst (mk_op_term ex_mgr and_op (PVar 0) (PVar 2) ex_vars_state) = PVar 3 \<and>
   length (added_clauses (snd (mk_op_term ex_mgr and_op (PVar 0) (PVar 2) ex_vars_state))) = 1 \<and>
   mk_op_term ex_mgr and_op (PVar 0) (PVar 2)
       (snd (mk_op_term ex_mgr and_op (PVar 0) (PVar 2) ex_vars_state))
     = mk_op_term ex_mgr and_op (PVar 0) (PVar 2) ex_vars_state"
    using T [THEN conjunct2, THEN conjunct2] h
    by (simp add: case_prod_beta n)
  show ?thesis
    by (rule conjI [OF p1 conjI [OF p2 conjI [OF c1 conjI [OF c2 old]]]])
qed

end
